theory Spec2Isabelle
  imports Complex_Main "HOL-Library.Sublist"
begin

section \<open>Errors\<close>

text \<open>
  Every \<^verbatim>\<open>throw\<close> of the TypeScript sources is a value of this type.
  \<open>QueryFailed e\<close> is the wrapper \<^verbatim>\<open>new Error(`RAG query failed: ${error}`)\<close> of
  \<^verbatim>\<open>RagAgent.query\<close>; \<open>TypeError\<close> stands for the runtime's own exceptions
  (\<^verbatim>\<open>new URL(x)\<close> on an unparsable string, a property read on \<^verbatim>\<open>undefined\<close>).
\<close>

datatype error =
    TextEmpty
  | TextsEmpty
  | EmbeddingInitFailed
  | EmbeddingFailed
  | SchemaInitFailed
  | StoreFailed
  | TypeError
  | QueryFailed error

section \<open>Crawl engine: \<^verbatim>\<open>FirecrawlService.ts\<close>\<close>

record PageMetadata =
  description :: "string option"
  m_keywords :: "string list option"
  author :: "string option"
  publishedDate :: "string option"

record ScrapedPage =
  p_url :: string
  p_title :: string
  p_content :: string
  p_metadata :: PageMetadata
  p_links :: "string list"

record ScrapeOptions =
  maxDepth :: "int option"
  maxPages :: "int option"
  includePaths :: "string list option"
  excludePaths :: "string list option"

text \<open>
  What \<^verbatim>\<open>scrapePage\<close> reads out of a fetched body with cheerio (lines 42-90): the
  title, the cleaned main content, the meta tags, and the \<^verbatim>\<open>href\<close>s that
  \<^verbatim>\<open>new URL(href, url)\<close> could resolve, in document order.
\<close>

record Extract =
  x_title :: string
  x_content :: string
  x_metadata :: PageMetadata
  x_hrefs :: "string list"

text \<open>
  The network and the URL parser are outside the repository. \<open>http_get w u\<close> is the
  outcome of \<^verbatim>\<open>axios.get(u)\<close> followed by the extraction (\<open>None\<close>: the request or the
  parsing threw); \<open>url_hostname w u\<close> is \<^verbatim>\<open>new URL(u).hostname\<close> (\<open>None\<close>: the
  constructor throws).
\<close>

record web =
  http_get :: "string \<Rightarrow> Extract option"
  url_hostname :: "string \<Rightarrow> string option"

text \<open>\<^verbatim>\<open>[...new Set(xs)]\<close>: the first occurrence of every element, in order.\<close>

definition unique :: "'a list \<Rightarrow> 'a list" where
  "unique xs = foldl (\<lambda>acc x. if x \<in> set acc then acc else acc @ [x]) [] xs"

text \<open>\<^verbatim>\<open>s.includes(p)\<close>: \<open>p\<close> occurs in \<open>s\<close> as a contiguous substring.\<close>

fun str_includes :: "string \<Rightarrow> string \<Rightarrow> bool" where
  "str_includes [] p = (p = [])"
| "str_includes (c # cs) p = (prefix p (c # cs) \<or> str_includes cs p)"

definition scrapePage :: "web \<Rightarrow> string \<Rightarrow> ScrapedPage option" where
  "scrapePage w u =
     (case http_get w u of
        None \<Rightarrow> None
      | Some x \<Rightarrow> Some \<lparr>p_url = u, p_title = x_title x, p_content = x_content x,
                        p_metadata = x_metadata x, p_links = unique (x_hrefs x)\<rparr>)"

text \<open>
  The variables of one run of the loop of \<^verbatim>\<open>crawlWebsite\<close>: the field
  \<^verbatim>\<open>this.visitedUrls\<close>, the locals \<^verbatim>\<open>results\<close> and \<^verbatim>\<open>queue\<close>, and a ghost list
  \<open>emitted\<close> that records, for every \<^verbatim>\<open>results.push(page)\<close>, the task
  \<open>(url, depth)\<close> that was dequeued for it (a \<^verbatim>\<open>ScrapedPage\<close> does not carry its
  depth).
\<close>

record crawl =
  visitedUrls :: "string set"
  results :: "ScrapedPage list"
  queue :: "(string \<times> int) list"
  emitted :: "(string \<times> int) list"

text \<open>
  One iteration of the \<^verbatim>\<open>while\<close> body (lines 129-176). The result's first component
  is the exception that leaves the loop, if any: \<^verbatim>\<open>new URL(url)\<close> on line 160 is
  outside the \<^verbatim>\<open>try\<close>. \<^verbatim>\<open>visitedUrls.add(url)\<close> is immediately followed by
  \<^verbatim>\<open>scrapePage(url)\<close>, so the visited set is exactly the set of URLs requested.
  On an empty queue the destructuring of \<^verbatim>\<open>queue.shift()\<close> would throw; the guard of
  the loop excludes it. The numbers \<^verbatim>\<open>maxDepth\<close> and \<^verbatim>\<open>maxPages\<close> are integers, as
  the tool schema intends; a depth is an integer by construction.
\<close>

definition crawl_step ::
  "web \<Rightarrow> int \<Rightarrow> string list \<Rightarrow> string list \<Rightarrow> crawl \<Rightarrow> error option \<times> crawl" where
  "crawl_step w maxDepth' includePaths' excludePaths' c =
     (case queue c of
        [] \<Rightarrow> (Some TypeError, c)
      | (u, depth) # rest \<Rightarrow>
          let c1 = c\<lparr>queue := rest\<rparr> in
          if u \<in> visitedUrls c1 then (None, c1)
          else if depth > maxDepth' then (None, c1)
          else if list_ex (str_includes u) excludePaths' then (None, c1)
          else if includePaths' \<noteq> [] \<and> \<not> list_ex (str_includes u) includePaths' then (None, c1)
          else
            let c2 = c1\<lparr>visitedUrls := insert u (visitedUrls c1)\<rparr> in
            (case scrapePage w u of
               None \<Rightarrow> (None, c2)
             | Some page \<Rightarrow>
                 let c3 = c2\<lparr>results := results c2 @ [page],
                            emitted := emitted c2 @ [(u, depth)]\<rparr> in
                 if depth < maxDepth' then
                   (case url_hostname w u of
                      None \<Rightarrow> (Some TypeError, c3)
                    | Some h \<Rightarrow>
                        (None, c3\<lparr>queue := queue c3 @
                           map (\<lambda>l. (l, depth + 1))
                             (filter (\<lambda>l. url_hostname w l = Some h) (p_links page))\<rparr>))
                 else (None, c3)))"

text \<open>
  The loop \<^verbatim>\<open>while (queue.length > 0 && results.length < maxPages)\<close>. Every iteration
  either pushes a page or leaves \<^verbatim>\<open>results\<close> alone and shortens the queue, which is
  the termination argument.
\<close>

function crawl_loop ::
  "web \<Rightarrow> int \<Rightarrow> int \<Rightarrow> string list \<Rightarrow> string list \<Rightarrow> crawl \<Rightarrow> error option \<times> crawl" where
  "crawl_loop w maxDepth' maxPages' inc exc c =
     (if queue c \<noteq> [] \<and> int (length (results c)) < maxPages' then
        (case fst (crawl_step w maxDepth' inc exc c) of
           Some e \<Rightarrow> (Some e, snd (crawl_step w maxDepth' inc exc c))
         | None \<Rightarrow> crawl_loop w maxDepth' maxPages' inc exc (snd (crawl_step w maxDepth' inc exc c)))
      else (None, c))"
  by pat_completeness auto
termination
  apply (relation "measures [\<lambda>(w, md, mp, inc, exc, c). nat (mp - int (length (results c))),
                             \<lambda>(w, md, mp, inc, exc, c). length (queue c)]")
   apply simp
  apply (auto simp: crawl_step_def Let_def split: list.splits option.splits if_splits prod.splits)
  done

text \<open>The defaults of the destructuring on lines 117-122.\<close>

definition opt_maxDepth :: "ScrapeOptions \<Rightarrow> int" where
  "opt_maxDepth options = (case maxDepth options of None \<Rightarrow> 2 | Some d \<Rightarrow> d)"

definition opt_maxPages :: "ScrapeOptions \<Rightarrow> int" where
  "opt_maxPages options = (case maxPages options of None \<Rightarrow> 50 | Some n \<Rightarrow> n)"

definition opt_includePaths :: "ScrapeOptions \<Rightarrow> string list" where
  "opt_includePaths options = (case includePaths options of None \<Rightarrow> [] | Some ps \<Rightarrow> ps)"

definition opt_excludePaths :: "ScrapeOptions \<Rightarrow> string list" where
  "opt_excludePaths options = (case excludePaths options of None \<Rightarrow> [] | Some ps \<Rightarrow> ps)"

text \<open>
  \<^verbatim>\<open>crawlWebsite\<close> up to the end of the loop: the defaults of the destructuring, then
  \<^verbatim>\<open>this.visitedUrls.clear()\<close>, an empty \<^verbatim>\<open>results\<close> and the queue holding the seed
  at depth 0. The set \<open>V\<close> is the content of the field \<^verbatim>\<open>visitedUrls\<close> before the
  call; \<^verbatim>\<open>clear()\<close> drops it.
\<close>

definition crawl_run :: "web \<Rightarrow> string \<Rightarrow> ScrapeOptions \<Rightarrow> string set \<Rightarrow> error option \<times> crawl" where
  "crawl_run w startUrl options V =
     crawl_loop w (opt_maxDepth options) (opt_maxPages options)
       (opt_includePaths options) (opt_excludePaths options)
       \<lparr>visitedUrls = {}, results = [], queue = [(startUrl, 0)], emitted = []\<rparr>"

text \<open>
  \<^verbatim>\<open>crawlWebsite\<close>: the value returned (or the exception thrown), and the content of
  the field \<^verbatim>\<open>visitedUrls\<close> of the service object afterwards.
\<close>

definition crawlWebsite ::
  "web \<Rightarrow> string \<Rightarrow> ScrapeOptions \<Rightarrow> string set \<Rightarrow> (error + ScrapedPage list) \<times> string set" where
  "crawlWebsite w startUrl options V =
     (let r = crawl_run w startUrl options V in
      (case fst r of None \<Rightarrow> Inr (results (snd r)) | Some e \<Rightarrow> Inl e, visitedUrls (snd r)))"

subsection \<open>Invariants of the crawl loop\<close>

text \<open>
  The budget invariant: no more pages than \<open>maxPages\<close>, the ghost list runs parallel to
  \<^verbatim>\<open>results\<close>, and every page was dequeued at a depth of at most \<open>maxDepth\<close>.
\<close>

definition budget_inv :: "int \<Rightarrow> int \<Rightarrow> crawl \<Rightarrow> bool" where
  "budget_inv md mp c \<longleftrightarrow>
     int (length (results c)) \<le> mp \<and>
     map p_url (results c) = map fst (emitted c) \<and>
     (\<forall>t \<in> set (emitted c). snd t \<le> md)"

text \<open>
  The origin invariant: every queued and every requested URL has the seed's hostname (or
  is as unparsable as the seed), and every emitted page was requested.
\<close>

definition origin_inv :: "web \<Rightarrow> string \<Rightarrow> crawl \<Rightarrow> bool" where
  "origin_inv w seed c \<longleftrightarrow>
     (\<forall>t \<in> set (queue c). url_hostname w (fst t) = url_hostname w seed) \<and>
     (\<forall>u \<in> visitedUrls c. url_hostname w u = url_hostname w seed) \<and>
     (\<forall>p \<in> set (results c). p_url p \<in> visitedUrls c)"

subsection \<open>A small site\<close>

text \<open>
  Scenario A of the specification: page A links to B on its own host (twice) and to C on
  another host; B links back to A. All three pages can be fetched.
\<close>

definition no_meta :: PageMetadata where
  "no_meta = \<lparr>description = None, m_keywords = None, author = None, publishedDate = None\<rparr>"

definition example_web :: web where
  "example_web =
     \<lparr>http_get = map_of
        [(''https://example.test/'',
            \<lparr>x_title = ''A'', x_content = ''home'', x_metadata = no_meta,
             x_hrefs = [''https://example.test/b'', ''https://other.test/'', ''https://example.test/b'']\<rparr>),
         (''https://example.test/b'',
            \<lparr>x_title = ''B'', x_content = ''second'', x_metadata = no_meta,
             x_hrefs = [''https://example.test/'']\<rparr>),
         (''https://other.test/'',
            \<lparr>x_title = ''C'', x_content = ''elsewhere'', x_metadata = no_meta, x_hrefs = []\<rparr>)],
      url_hostname = map_of
        [(''https://example.test/'', ''example.test''),
         (''https://example.test/b'', ''example.test''),
         (''https://other.test/'', ''other.test'')]\<rparr>"

definition example_options :: ScrapeOptions where
  "example_options = \<lparr>maxDepth = Some 1, maxPages = Some 10, includePaths = None, excludePaths = None\<rparr>"

definition example_pages :: "ScrapedPage list" where
  "example_pages =
     [\<lparr>p_url = ''https://example.test/'', p_title = ''A'', p_content = ''home'', p_metadata = no_meta,
       p_links = [''https://example.test/b'', ''https://other.test/'']\<rparr>,
      \<lparr>p_url = ''https://example.test/b'', p_title = ''B'', p_content = ''second'', p_metadata = no_meta,
       p_links = [''https://example.test/'']\<rparr>]"

definition offline_web :: web where
  "offline_web = \<lparr>http_get = (\<lambda>u. None), url_hostname = (\<lambda>u. None)\<rparr>"

definition default_options :: ScrapeOptions where
  "default_options = \<lparr>maxDepth = None, maxPages = None, includePaths = None, excludePaths = None\<rparr>"

subsection \<open>Two invocations on the one service object\<close>

text \<open>
  \<^verbatim>\<open>crawlWebsite\<close> is \<^verbatim>\<open>async\<close> and is called on the exported singleton
  \<^verbatim>\<open>firecrawlService\<close>. Every iteration of its loop ends in an \<^verbatim>\<open>await\<close> (the delay of
  line 176), where another invocation may run. \<^verbatim>\<open>results\<close> and \<^verbatim>\<open>queue\<close> are locals
  of an invocation; \<^verbatim>\<open>this.visitedUrls\<close> is the one field both invocations read and
  write. An invocation is the exception that ended it, if any, and its variables;
  \<open>call\<close> is the part of \<^verbatim>\<open>crawlWebsite\<close> before the loop (it clears the field),
  \<open>iteration\<close> is one turn of the loop on the current content \<open>V\<close> of the field (no
  turn when the guard fails or an exception has ended the invocation), and \<open>returned\<close>
  says that the guard has failed, so that \<^verbatim>\<open>results\<close> is returned.
\<close>

datatype event = CallA | StepA | CallB | StepB

definition call :: "string \<Rightarrow> error option \<times> crawl" where
  "call startUrl =
     (None, \<lparr>visitedUrls = {}, results = [], queue = [(startUrl, 0)], emitted = []\<rparr>)"

definition iteration ::
  "web \<Rightarrow> ScrapeOptions \<Rightarrow> string set \<Rightarrow> error option \<times> crawl \<Rightarrow> error option \<times> crawl" where
  "iteration w options V r =
     (if fst r = None \<and> queue (snd r) \<noteq> [] \<and>
         int (length (results (snd r))) < opt_maxPages options
      then crawl_step w (opt_maxDepth options) (opt_includePaths options)
             (opt_excludePaths options) ((snd r)\<lparr>visitedUrls := V\<rparr>)
      else (fst r, (snd r)\<lparr>visitedUrls := V\<rparr>))"

definition returned :: "ScrapeOptions \<Rightarrow> error option \<times> crawl \<Rightarrow> bool" where
  "returned options r \<longleftrightarrow>
     fst r = None \<and>
     (queue (snd r) = [] \<or> opt_maxPages options \<le> int (length (results (snd r))))"

text \<open>
  A schedule lists, in order, which invocation is called or runs its next iteration.
  Before its call an invocation has nothing to do.
\<close>

definition idle :: "error option \<times> crawl" where
  "idle = (None, \<lparr>visitedUrls = {}, results = [], queue = [], emitted = []\<rparr>)"

definition event_step ::
  "web \<Rightarrow> ScrapeOptions \<Rightarrow> string \<Rightarrow> ScrapeOptions \<Rightarrow> string \<Rightarrow>
     string set \<times> (error option \<times> crawl) \<times> (error option \<times> crawl) \<Rightarrow> event \<Rightarrow>
     string set \<times> (error option \<times> crawl) \<times> (error option \<times> crawl)" where
  "event_step w optionsA urlA optionsB urlB st ev =
     (case st of (V, a, b) \<Rightarrow>
        (case ev of
           CallA \<Rightarrow> ({}, call urlA, b)
         | CallB \<Rightarrow> ({}, a, call urlB)
         | StepA \<Rightarrow> (visitedUrls (snd (iteration w optionsA V a)), iteration w optionsA V a, b)
         | StepB \<Rightarrow> (visitedUrls (snd (iteration w optionsB V b)), a, iteration w optionsB V b)))"

definition overlapped ::
  "web \<Rightarrow> ScrapeOptions \<Rightarrow> string \<Rightarrow> ScrapeOptions \<Rightarrow> string \<Rightarrow> event list \<Rightarrow>
     string set \<times> (error option \<times> crawl) \<times> (error option \<times> crawl)" where
  "overlapped w optionsA urlA optionsB urlB schedule =
     foldl (event_step w optionsA urlA optionsB urlB) ({}, idle, idle) schedule"



section \<open>The system around the retrieval pipeline\<close>

text \<open>
  The external calls the services make, in the order they are issued: a ghost log.
\<close>

datatype io =
    RedisConnect
  | RedisGet string
  | RedisSetEx string
  | ModelLoad
  | PipelineRun string
  | OpenAIRequest "string list"
  | DbSchema
  | DbSearch
  | DbTransaction

datatype provider = Local | OpenAI

datatype jsvalue = JStr string | JStrs "string list"

type_synonym metadata = "(string \<times> jsvalue) list"

record EmbeddingResult =
  e_embedding :: "real list"
  e_dimensions :: nat
  e_model :: string

record SimilarityResult =
  r_id :: nat
  r_content :: string
  r_metadata :: "metadata option"
  r_source :: "string option"
  similarity :: real
  distance :: real

text \<open>
  A JavaScript number that may be the outcome of a division: the quotient of two finite
  numbers is finite unless the divisor is 0.
\<close>

datatype number = Num real | NaN | Infinity | NegInfinity

record RagQueryResult =
  q_query :: string
  q_results :: "SimilarityResult list"
  q_context :: string
  citations :: "string list"
  totalResults :: nat
  averageSimilarity :: number
  queryEmbeddingDimensions :: nat

record RagQueryOptions =
  topK :: "int option"
  similarityThreshold :: "real option"
  includeMetadata :: "bool option"

record DocumentInput =
  d_content :: string
  d_metadata :: "metadata option"
  d_source :: "string option"

record DocumentWithEmbedding =
  de_content :: string
  de_embedding :: "real list"
  de_metadata :: "metadata option"
  de_source :: "string option"

text \<open>
  A committed row of \<^verbatim>\<open>rag.documents\<close> joined with its row of \<^verbatim>\<open>rag.embeddings\<close>
  (the \<^verbatim>\<open>title\<close> and timestamp columns are left out).
\<close>

record DocumentRow =
  row_id :: nat
  row_content :: string
  row_metadata :: metadata
  row_source :: "string option"
  row_embedding :: "real list"

text \<open>
  What lies outside the repository: the configuration read from the environment, the
  embedding model and the OpenAI API, the Redis server, and PostgreSQL. A call that can
  throw has an outcome \<open>None\<close> or \<open>False\<close>.
  \<^item> \<open>pipeline sv t\<close>: the local model on text \<open>t\<close>;
  \<^item> \<open>openai_create sv ts\<close>: \<^verbatim>\<open>client.embeddings.create\<close> on the inputs \<open>ts\<close>, the
    embeddings of \<^verbatim>\<open>response.data\<close> in order;
  \<^item> \<open>maxBatchSize sv\<close>: \<^verbatim>\<open>parseInt(process.env['MAX_BATCH_SIZE'] || '100')\<close>, taken
    to be a natural number;
  \<^item> \<open>default_topK sv\<close>: \<^verbatim>\<open>parseInt(process.env['SIMILARITY_SEARCH_K'] || '5')\<close>;
  \<^item> \<open>redis_up sv\<close>: \<^verbatim>\<open>client.connect()\<close> succeeds; \<open>redis_ok sv\<close>: a command on a
    connected client succeeds;
  \<^item> \<open>db_connects sv\<close>: \<^verbatim>\<open>getConnection()\<close> succeeds; \<open>db_accepts sv c e\<close>: the two
    \<^verbatim>\<open>INSERT\<close>s for a document with content \<open>c\<close> and embedding \<open>e\<close> succeed;
  \<^item> \<open>db_search sv rows e k t\<close>: the \<^verbatim>\<open>SELECT\<close> of \<^verbatim>\<open>searchSimilar\<close> over the
    committed rows.
\<close>

record services =
  provider :: provider
  modelName :: string
  openai_model :: string
  maxBatchSize :: nat
  default_topK :: int
  model_loads :: bool
  pipeline :: "string \<Rightarrow> real list option"
  openai_create :: "string list \<Rightarrow> real list list option"
  redis_up :: bool
  redis_ok :: bool
  schema_ok :: bool
  db_connects :: bool
  db_accepts :: "string \<Rightarrow> real list \<Rightarrow> bool"
  db_search :: "DocumentRow list \<Rightarrow> real list \<Rightarrow> int \<Rightarrow> real \<Rightarrow> SimilarityResult list option"

text \<open>
  The mutable state of the singletons: \<^verbatim>\<open>RagAgent.isInitialized\<close>,
  \<^verbatim>\<open>EmbeddingService.isInitialized\<close>, \<^verbatim>\<open>RedisCacheService.isConnected\<close>, the content
  of the Redis database (a stored string is identified with the value it parses to), the
  committed rows and the \<^verbatim>\<open>SERIAL\<close> sequence of the database, the field
  \<^verbatim>\<open>visitedUrls\<close> of \<^verbatim>\<open>firecrawlService\<close>, and the ghost log.
\<close>

record system =
  isInitialized :: bool
  emb_isInitialized :: bool
  isConnected :: bool
  cache :: "string \<Rightarrow> RagQueryResult option"
  documents :: "DocumentRow list"
  next_id :: nat
  crawler_visited :: "string set"
  io_log :: "io list"

definition log_io :: "io list \<Rightarrow> system \<Rightarrow> system" where
  "log_io xs s = s\<lparr>io_log := io_log s @ xs\<rparr>"

section \<open>Embedding services: \<^verbatim>\<open>EmbeddingService\<close> and \<^verbatim>\<open>OpenAIEmbeddingService\<close>\<close>

text \<open>
  \<^verbatim>\<open>!text || text.trim().length === 0\<close>: the text is empty or consists of white space.
  A string is a list of bytes here and texts are taken to be ASCII, so the white space
  characters are the six ASCII ones.
\<close>

definition is_space :: "char \<Rightarrow> bool" where
  "is_space c \<longleftrightarrow> c \<in> {CHR '' '', CHR 0x09, CHR 0x0A, CHR 0x0B, CHR 0x0C, CHR 0x0D}"

definition blank :: "string \<Rightarrow> bool" where
  "blank text \<longleftrightarrow> list_all is_space text"

text \<open>\<^verbatim>\<open>EmbeddingService.initialize\<close>.\<close>

definition emb_initialize :: "services \<Rightarrow> system \<Rightarrow> error option \<times> system" where
  "emb_initialize sv s =
     (if provider sv = OpenAI then (None, s\<lparr>emb_isInitialized := True\<rparr>)
      else if emb_isInitialized s then (None, s)
      else if model_loads sv then (None, (log_io [ModelLoad] s)\<lparr>emb_isInitialized := True\<rparr>)
      else (Some EmbeddingInitFailed, log_io [ModelLoad] s))"

text \<open>
  \<^verbatim>\<open>OpenAIEmbeddingService.generateEmbedding\<close>: \<^verbatim>\<open>response.data[0]\<close> of a request for
  one input; the read of \<^verbatim>\<open>.embedding\<close> on a missing element is caught with every
  other exception.
\<close>

definition openai_generateEmbedding ::
  "services \<Rightarrow> string \<Rightarrow> system \<Rightarrow> (error + EmbeddingResult) \<times> system" where
  "openai_generateEmbedding sv text s =
     (case openai_create sv [text] of
        Some (v # vs) \<Rightarrow>
          (Inr \<lparr>e_embedding = v, e_dimensions = length v, e_model = openai_model sv\<rparr>,
           log_io [OpenAIRequest [text]] s)
      | _ \<Rightarrow> (Inl EmbeddingFailed, log_io [OpenAIRequest [text]] s))"

text \<open>\<^verbatim>\<open>EmbeddingService.generateEmbedding\<close>.\<close>

definition generateEmbedding ::
  "services \<Rightarrow> string \<Rightarrow> system \<Rightarrow> (error + EmbeddingResult) \<times> system" where
  "generateEmbedding sv text s =
     (if blank text then (Inl TextEmpty, s)
      else if provider sv = OpenAI then openai_generateEmbedding sv text s
      else
        (case (if emb_isInitialized s then (None, s) else emb_initialize sv s) of
           (Some e, s1) \<Rightarrow> (Inl e, s1)
         | (None, s1) \<Rightarrow>
             (case pipeline sv text of
                None \<Rightarrow> (Inl EmbeddingFailed, log_io [PipelineRun text] s1)
              | Some v \<Rightarrow>
                  (Inr \<lparr>e_embedding = v, e_dimensions = length v, e_model = modelName sv\<rparr>,
                   log_io [PipelineRun text] s1))))"

text \<open>
  \<^verbatim>\<open>Promise.all(batch.map(text => this.generateEmbedding(text)))\<close>: every call is
  started, in order; the outcome is the list of the results in the order of the batch, or
  a rejection when a call rejects (the first one in the order of the batch is taken).
\<close>

fun embed_all ::
  "services \<Rightarrow> string list \<Rightarrow> system \<Rightarrow> (error + EmbeddingResult list) \<times> system" where
  "embed_all sv [] s = (Inr [], s)"
| "embed_all sv (t # ts) s =
     (case generateEmbedding sv t s of
        (r, s1) \<Rightarrow>
          (case embed_all sv ts s1 of
             (rs, s2) \<Rightarrow>
               (case r of
                  Inl e \<Rightarrow> (Inl e, s2)
                | Inr x \<Rightarrow> (case rs of Inl e \<Rightarrow> (Inl e, s2) | Inr xs \<Rightarrow> (Inr (x # xs), s2)))))"

text \<open>
  The batch loop of the local provider,
  \<^verbatim>\<open>for (let i = 0; i < texts.length; i += maxBatchSize)\<close>. With a batch size of 0 the
  index never advances and the loop does not end: the result \<open>None\<close>.
\<close>

partial_function (option) embed_batches ::
  "services \<Rightarrow> string list \<Rightarrow> nat \<Rightarrow> EmbeddingResult list \<Rightarrow> system \<Rightarrow>
     ((error + EmbeddingResult list) \<times> system) option" where
  "embed_batches sv texts i acc s =
     (if i < length texts then
        (case embed_all sv (take (maxBatchSize sv) (drop i texts)) s of
           (Inl e, s1) \<Rightarrow> Some (Inl e, s1)
         | (Inr batchResults, s1) \<Rightarrow>
             embed_batches sv texts (i + maxBatchSize sv) (acc @ batchResults) s1)
      else Some (Inr acc, s))"

text \<open>\<^verbatim>\<open>OpenAIEmbeddingService.processBatch\<close>.\<close>

definition processBatch ::
  "services \<Rightarrow> string list \<Rightarrow> system \<Rightarrow> (error + EmbeddingResult list) \<times> system" where
  "processBatch sv texts s =
     (case openai_create sv texts of
        None \<Rightarrow> (Inl EmbeddingFailed, log_io [OpenAIRequest texts] s)
      | Some vs \<Rightarrow>
          (Inr (map (\<lambda>v. \<lparr>e_embedding = v, e_dimensions = length v, e_model = openai_model sv\<rparr>) vs),
           log_io [OpenAIRequest texts] s))"

text \<open>
  The chunk loop of \<^verbatim>\<open>OpenAIEmbeddingService.generateEmbeddings\<close>, with the constant
  \<^verbatim>\<open>maxBatchSize = 2048\<close>.
\<close>

function openai_chunks ::
  "services \<Rightarrow> string list \<Rightarrow> nat \<Rightarrow> EmbeddingResult list \<Rightarrow> system \<Rightarrow>
     (error + EmbeddingResult list) \<times> system" where
  "openai_chunks sv texts i acc s =
     (if i < length texts then
        (case processBatch sv (take 2048 (drop i texts)) s of
           (Inl e, s1) \<Rightarrow> (Inl e, s1)
         | (Inr batchResults, s1) \<Rightarrow> openai_chunks sv texts (i + 2048) (acc @ batchResults) s1)
      else (Inr acc, s))"
  by pat_completeness auto
termination
  by (relation "measure (\<lambda>(sv, texts, i, acc, s). length texts - i)") auto

definition openai_generateEmbeddings ::
  "services \<Rightarrow> string list \<Rightarrow> system \<Rightarrow> (error + EmbeddingResult list) \<times> system" where
  "openai_generateEmbeddings sv texts s =
     (if length texts = 0 then (Inr [], s)
      else if length texts \<le> 2048 then processBatch sv texts s
      else openai_chunks sv texts 0 [] s)"

text \<open>
  \<^verbatim>\<open>EmbeddingService.generateEmbeddings\<close>. The check for an empty array comes before
  the dispatch on the provider.
\<close>

definition generateEmbeddings ::
  "services \<Rightarrow> string list \<Rightarrow> system \<Rightarrow> ((error + EmbeddingResult list) \<times> system) option" where
  "generateEmbeddings sv texts s =
     (if length texts = 0 then Some (Inl TextsEmpty, s)
      else if provider sv = OpenAI then Some (openai_generateEmbeddings sv texts s)
      else
        (case (if emb_isInitialized s then (None, s) else emb_initialize sv s) of
           (Some e, s1) \<Rightarrow> Some (Inl e, s1)
         | (None, s1) \<Rightarrow> embed_batches sv texts 0 [] s1))"


section \<open>Vector store: \<^verbatim>\<open>DatabaseService\<close>\<close>

text \<open>
  The loop of \<^verbatim>\<open>batchInsertDocuments\<close> inside its transaction: \<open>n\<close> is the next value
  of the sequence, \<open>rows\<close> the table as the transaction sees it, \<open>ids\<close> the array
  \<^verbatim>\<open>documentIds\<close>. The flag tells whether every \<^verbatim>\<open>INSERT\<close> succeeded. A value drawn
  from the sequence is not given back.
\<close>

fun insert_rows ::
  "services \<Rightarrow> DocumentWithEmbedding list \<Rightarrow> nat \<Rightarrow> DocumentRow list \<Rightarrow> nat list \<Rightarrow>
     bool \<times> nat \<times> DocumentRow list \<times> nat list" where
  "insert_rows sv [] n rows ids = (True, n, rows, ids)"
| "insert_rows sv (d # ds) n rows ids =
     (if db_accepts sv (de_content d) (de_embedding d) then
        insert_rows sv ds (Suc n)
          (rows @ [\<lparr>row_id = n, row_content = de_content d,
                     row_metadata = (case de_metadata d of None \<Rightarrow> [] | Some m \<Rightarrow> m),
                     row_source = de_source d, row_embedding = de_embedding d\<rparr>])
          (ids @ [n])
      else (False, Suc n, rows, ids))"

text \<open>
  \<^verbatim>\<open>batchInsertDocuments\<close>: \<^verbatim>\<open>COMMIT\<close> makes the rows of the transaction the committed
  rows, \<^verbatim>\<open>ROLLBACK\<close> leaves the committed rows as they were. \<^verbatim>\<open>getConnection()\<close> is
  called before the \<^verbatim>\<open>try\<close>.
\<close>

definition batchInsertDocuments ::
  "services \<Rightarrow> DocumentWithEmbedding list \<Rightarrow> system \<Rightarrow> (error + nat list) \<times> system" where
  "batchInsertDocuments sv docs s =
     (if \<not> db_connects sv then (Inl StoreFailed, s)
      else
        (case insert_rows sv docs (next_id s) (documents s) [] of
           (ok, n, rows, ids) \<Rightarrow>
             if ok then (Inr ids, (log_io [DbTransaction] s)\<lparr>documents := rows, next_id := n\<rparr>)
             else (Inl StoreFailed, (log_io [DbTransaction] s)\<lparr>next_id := n\<rparr>)))"

text \<open>\<^verbatim>\<open>searchSimilar\<close>: the query is left to the database.\<close>

definition searchSimilar ::
  "services \<Rightarrow> real list \<Rightarrow> int \<Rightarrow> real \<Rightarrow> system \<Rightarrow> (error + SimilarityResult list) \<times> system" where
  "searchSimilar sv queryEmbedding limit threshold s =
     (if \<not> db_connects sv then (Inl StoreFailed, s)
      else
        (case db_search sv (documents s) queryEmbedding limit threshold of
           None \<Rightarrow> (Inl StoreFailed, log_io [DbSearch] s)
         | Some rows \<Rightarrow> (Inr rows, log_io [DbSearch] s)))"

section \<open>Result cache: \<^verbatim>\<open>RedisCacheService\<close>\<close>

text \<open>\<^verbatim>\<open>parts.join(sep)\<close>.\<close>

fun join :: "string \<Rightarrow> string list \<Rightarrow> string" where
  "join sep [] = []"
| "join sep [x] = x"
| "join sep (x # y # ys) = x @ sep @ join sep (y # ys)"

definition generateKey :: "string \<Rightarrow> string list \<Rightarrow> string" where
  "generateKey pfx parts = ''rag:'' @ pfx @ '':'' @ join '':'' parts"

definition redis_connect :: "services \<Rightarrow> system \<Rightarrow> system" where
  "redis_connect sv s =
     (if isConnected s then s
      else (log_io [RedisConnect] s)\<lparr>isConnected := redis_up sv\<rparr>)"

text \<open>\<^verbatim>\<open>get\<close>: \<open>None\<close> is the \<^verbatim>\<open>null\<close> of a miss, of a closed connection and of an error.\<close>

definition redis_get :: "services \<Rightarrow> string \<Rightarrow> system \<Rightarrow> RagQueryResult option \<times> system" where
  "redis_get sv key s =
     (if \<not> isConnected s then (None, s)
      else if redis_ok sv then (cache s key, log_io [RedisGet key] s)
      else (None, log_io [RedisGet key] s))"

definition redis_set :: "services \<Rightarrow> string \<Rightarrow> RagQueryResult \<Rightarrow> system \<Rightarrow> system" where
  "redis_set sv key v s =
     (if \<not> isConnected s then s
      else if redis_ok sv then (log_io [RedisSetEx key] s)\<lparr>cache := (cache s)(key \<mapsto> v)\<rparr>
      else log_io [RedisSetEx key] s)"

section \<open>Retrieval pipeline: \<^verbatim>\<open>RagAgent\<close>\<close>

text \<open>Decimal notation, for \<^verbatim>\<open>topK.toString()\<close> and \<^verbatim>\<open>${index + 1}\<close>.\<close>

function digits :: "nat \<Rightarrow> string" where
  "digits n = (if n < 10 then [''0123456789'' ! n] else digits (n div 10) @ [''0123456789'' ! (n mod 10)])"
  by pat_completeness auto
termination
  by (relation "measure id") auto

definition toString :: "int \<Rightarrow> string" where
  "toString k = (if k < 0 then ''-'' @ digits (nat (- k)) else digits (nat k))"

text \<open>\<^verbatim>\<open>RagAgent.initialize\<close>.\<close>

definition initialize :: "services \<Rightarrow> system \<Rightarrow> error option \<times> system" where
  "initialize sv s =
     (if isInitialized s then (None, s)
      else
        (case emb_initialize sv (redis_connect sv s) of
           (Some e, s1) \<Rightarrow> (Some e, s1)
         | (None, s1) \<Rightarrow>
             if schema_ok sv then (None, (log_io [DbSchema] s1)\<lparr>isInitialized := True\<rparr>)
             else (Some SchemaInitFailed, log_io [DbSchema] s1)))"

text \<open>\<^verbatim>\<open>buildContext\<close>; \<open>entry\<close> is the callback of \<^verbatim>\<open>map\<close>, given the index.\<close>

definition entry :: "nat \<Rightarrow> SimilarityResult \<Rightarrow> string" where
  "entry index result =
     (let source = (case r_source result of
                      None \<Rightarrow> ''''
                    | Some src \<Rightarrow> if src = '''' then '''' else '' [Source: '' @ src @ '']'')
      in ''['' @ digits (index + 1) @ ''] '' @ r_content result @ source)"

fun map_index :: "(nat \<Rightarrow> 'a \<Rightarrow> 'b) \<Rightarrow> nat \<Rightarrow> 'a list \<Rightarrow> 'b list" where
  "map_index f i [] = []"
| "map_index f i (x # xs) = f i x # map_index f (Suc i) xs"

definition buildContext :: "SimilarityResult list \<Rightarrow> string" where
  "buildContext rs =
     (if length rs = 0 then ''No relevant context found.''
      else join [CHR 0x0A, CHR 0x0A] (map_index entry 0 rs))"

text \<open>
  \<^verbatim>\<open>extractCitations\<close>: the sources that are present and not empty, each at its first
  occurrence.
\<close>

definition extractCitations :: "SimilarityResult list \<Rightarrow> string list" where
  "extractCitations rs =
     unique (concat (map (\<lambda>r. case r_source r of
                                 None \<Rightarrow> []
                               | Some src \<Rightarrow> if src = '''' then [] else [src]) rs))"

text \<open>The division of two finite numbers.\<close>

definition js_divide :: "real \<Rightarrow> real \<Rightarrow> number" where
  "js_divide a b =
     (if b \<noteq> 0 then Num (a / b)
      else if a = 0 then NaN
      else if 0 < a then Infinity else NegInfinity)"

text \<open>Lines 582-584 of \<^verbatim>\<open>query\<close>.\<close>

definition average_similarity :: "SimilarityResult list \<Rightarrow> number" where
  "average_similarity rs =
     (if length rs > 0
      then js_divide (foldl (\<lambda>sum r. sum + similarity r) 0 rs) (real (length rs))
      else Num 0)"

text \<open>
  The stated value of \<^verbatim>\<open>averageSimilarity\<close>: 0 for a result without matches, the
  arithmetic mean of the similarities of its matches otherwise.
\<close>

definition mean_similarity :: "RagQueryResult \<Rightarrow> bool" where
  "mean_similarity r \<longleftrightarrow>
     averageSimilarity r =
       (if q_results r = [] then Num 0
        else Num (sum_list (map similarity (q_results r)) / real (length (q_results r))))"

definition opt_topK :: "services \<Rightarrow> RagQueryOptions \<Rightarrow> int" where
  "opt_topK sv options = (case topK options of None \<Rightarrow> default_topK sv | Some k \<Rightarrow> k)"

definition opt_similarityThreshold :: "RagQueryOptions \<Rightarrow> real" where
  "opt_similarityThreshold options = (case similarityThreshold options of None \<Rightarrow> 7 / 10 | Some t \<Rightarrow> t)"

definition opt_includeMetadata :: "RagQueryOptions \<Rightarrow> bool" where
  "opt_includeMetadata options = (case includeMetadata options of None \<Rightarrow> True | Some b \<Rightarrow> b)"

definition cacheKey :: "string \<Rightarrow> int \<Rightarrow> string" where
  "cacheKey queryText k = generateKey ''query'' [queryText, toString k]"

text \<open>The object literal of lines 586-599.\<close>

definition assemble :: "string \<Rightarrow> bool \<Rightarrow> nat \<Rightarrow> SimilarityResult list \<Rightarrow> RagQueryResult" where
  "assemble queryText includeMetadata' dimensions rs =
     \<lparr>q_query = queryText,
      q_results = (if includeMetadata' then rs else map (\<lambda>r. r\<lparr>r_metadata := None\<rparr>) rs),
      q_context = buildContext rs,
      citations = extractCitations rs,
      totalResults = length rs,
      averageSimilarity = average_similarity rs,
      queryEmbeddingDimensions = dimensions\<rparr>"

text \<open>
  \<^verbatim>\<open>RagAgent.query\<close>. An exception of \<^verbatim>\<open>initialize\<close> is passed on as it is; an
  exception inside the \<^verbatim>\<open>try\<close> is wrapped.
\<close>

definition query ::
  "services \<Rightarrow> string \<Rightarrow> RagQueryOptions \<Rightarrow> system \<Rightarrow> (error + RagQueryResult) \<times> system" where
  "query sv queryText options s =
     (case initialize sv s of
        (Some e, s1) \<Rightarrow> (Inl e, s1)
      | (None, s1) \<Rightarrow>
          (case redis_get sv (cacheKey queryText (opt_topK sv options)) s1 of
             (Some cached, s2) \<Rightarrow> (Inr cached, s2)
           | (None, s2) \<Rightarrow>
               (case generateEmbedding sv queryText s2 of
                  (Inl e, s3) \<Rightarrow> (Inl (QueryFailed e), s3)
                | (Inr emb, s3) \<Rightarrow>
                    (case searchSimilar sv (e_embedding emb) (opt_topK sv options)
                            (opt_similarityThreshold options) s3 of
                       (Inl e, s4) \<Rightarrow> (Inl (QueryFailed e), s4)
                     | (Inr rs, s4) \<Rightarrow>
                         (let result = assemble queryText (opt_includeMetadata options)
                                         (e_dimensions emb) rs
                          in (Inr result,
                              redis_set sv (cacheKey queryText (opt_topK sv options)) result s4))))))"

text \<open>
  The array \<^verbatim>\<open>documentsWithEmbeddings\<close> of \<^verbatim>\<open>addDocuments\<close>, when there are at
  least as many embeddings as documents: one element per document, in the order of the
  input, with the embedding at the same index.
\<close>

definition documentsWithEmbeddings ::
  "DocumentInput list \<Rightarrow> EmbeddingResult list \<Rightarrow> DocumentWithEmbedding list" where
  "documentsWithEmbeddings docs embeddings =
     map (\<lambda>(doc, e). \<lparr>de_content = d_content doc, de_embedding = e_embedding e,
                        de_metadata = d_metadata doc, de_source = d_source doc\<rparr>)
       (zip docs embeddings)"

text \<open>
  \<^verbatim>\<open>RagAgent.addDocuments\<close>. \<^verbatim>\<open>embeddings[index]!.embedding\<close> throws when the
  provider returned fewer embeddings than there are documents.
\<close>

definition addDocuments ::
  "services \<Rightarrow> DocumentInput list \<Rightarrow> system \<Rightarrow> ((error + nat list) \<times> system) option" where
  "addDocuments sv docs s =
     (case initialize sv s of
        (Some e, s1) \<Rightarrow> Some (Inl e, s1)
      | (None, s1) \<Rightarrow>
          (case generateEmbeddings sv (map d_content docs) s1 of
             None \<Rightarrow> None
           | Some (Inl e, s2) \<Rightarrow> Some (Inl e, s2)
           | Some (Inr embeddings, s2) \<Rightarrow>
               if length embeddings < length docs then Some (Inl TypeError, s2)
               else Some (batchInsertDocuments sv (documentsWithEmbeddings docs embeddings) s2)))"

text \<open>
  \<^verbatim>\<open>pagesToDocuments\<close>; a property of the metadata that is \<^verbatim>\<open>undefined\<close> is left
  out, as \<^verbatim>\<open>JSON.stringify\<close> leaves it out.
\<close>

definition pagesToDocuments :: "ScrapedPage list \<Rightarrow> DocumentInput list" where
  "pagesToDocuments pages =
     map (\<lambda>page.
       \<lparr>d_content = p_title page @ [CHR 0x0A, CHR 0x0A] @ p_content page,
        d_metadata = Some
          ([(''title'', JStr (p_title page)), (''url'', JStr (p_url page))] @
           (case description (p_metadata page) of None \<Rightarrow> [] | Some x \<Rightarrow> [(''description'', JStr x)]) @
           (case m_keywords (p_metadata page) of None \<Rightarrow> [] | Some x \<Rightarrow> [(''keywords'', JStrs x)]) @
           (case author (p_metadata page) of None \<Rightarrow> [] | Some x \<Rightarrow> [(''author'', JStr x)]) @
           (case publishedDate (p_metadata page) of None \<Rightarrow> [] | Some x \<Rightarrow> [(''publishedDate'', JStr x)])),
        d_source = Some (p_url page)\<rparr>) pages"

text \<open>\<^verbatim>\<open>RagAgent.indexWebsite\<close>: the document ids and \<^verbatim>\<open>pageCount\<close>.\<close>

definition indexWebsite ::
  "services \<Rightarrow> web \<Rightarrow> string \<Rightarrow> ScrapeOptions \<Rightarrow> system \<Rightarrow>
     ((error + nat list \<times> nat) \<times> system) option" where
  "indexWebsite sv w u options s =
     (case initialize sv s of
        (Some e, s1) \<Rightarrow> Some (Inl e, s1)
      | (None, s1) \<Rightarrow>
          (case crawlWebsite w u options (crawler_visited s1) of
             (Inl e, V) \<Rightarrow> Some (Inl e, s1\<lparr>crawler_visited := V\<rparr>)
           | (Inr pages, V) \<Rightarrow>
               (case addDocuments sv (pagesToDocuments pages) (s1\<lparr>crawler_visited := V\<rparr>) of
                  None \<Rightarrow> None
                | Some (Inl e, s2) \<Rightarrow> Some (Inl e, s2)
                | Some (Inr documentIds, s2) \<Rightarrow> Some (Inr (documentIds, length pages), s2))))"


section \<open>The stated format of the context\<close>

text \<open>
  The context as the specification words it: the matches in rank order, joined, each as
  \<^verbatim>\<open>[i] <content> [Source: <sourceURL>]\<close> with the rank \<open>i\<close> counted from 1 and
  the suffix left out for a match without a source URL (a source that is absent or the
  empty string). The specification does not name the separator; the blank line of the code
  is taken.
\<close>

definition spec_suffix :: "SimilarityResult \<Rightarrow> string" where
  "spec_suffix m =
     (case r_source m of
        None \<Rightarrow> ''''
      | Some u \<Rightarrow> if u = '''' then '''' else '' [Source: '' @ u @ '']'')"

definition spec_context :: "SimilarityResult list \<Rightarrow> string" where
  "spec_context ms =
     join [CHR 0x0A, CHR 0x0A]
       (map (\<lambda>i. ''['' @ digits (i + 1) @ ''] '' @ r_content (ms ! i) @ spec_suffix (ms ! i))
          [0..<length ms])"

section \<open>Sample data\<close>

text \<open>
  Two matches, and services that always succeed: the local model embeds every text as
  \<open>[1, 0]\<close>, and the database answers a search with those of the two matches that
  reach the threshold, at most \<open>k\<close> of them.
\<close>

definition match1 :: SimilarityResult where
  "match1 = \<lparr>r_id = 1, r_content = ''alpha'', r_metadata = None,
             r_source = Some ''https://example.test/'', similarity = 9 / 10, distance = 1 / 10\<rparr>"

definition match2 :: SimilarityResult where
  "match2 = \<lparr>r_id = 2, r_content = ''beta'', r_metadata = None,
             r_source = None, similarity = 8 / 10, distance = 2 / 10\<rparr>"

definition example_services :: services where
  "example_services =
     \<lparr>provider = Local, modelName = ''Xenova/all-MiniLM-L6-v2'',
      openai_model = ''text-embedding-3-small'', maxBatchSize = 100, default_topK = 5,
      model_loads = True, pipeline = (\<lambda>t. Some [1, 0]),
      openai_create = (\<lambda>ts. Some (map (\<lambda>t. [1, 0]) ts)),
      redis_up = True, redis_ok = True, schema_ok = True, db_connects = True,
      db_accepts = (\<lambda>c e. True),
      db_search = (\<lambda>rows e k t. Some (take (nat k) (filter (\<lambda>m. t \<le> similarity m) [match1, match2])))\<rparr>"

definition ready_system :: system where
  "ready_system =
     \<lparr>isInitialized = True, emb_isInitialized = True, isConnected = True, cache = Map.empty,
      documents = [], next_id = 1, crawler_visited = {}, io_log = []\<rparr>"

definition strict_options :: RagQueryOptions where
  "strict_options = \<lparr>topK = Some 5, similarityThreshold = Some (85 / 100), includeMetadata = Some True\<rparr>"

definition lax_options :: RagQueryOptions where
  "lax_options = \<lparr>topK = Some 5, similarityThreshold = Some 0, includeMetadata = Some True\<rparr>"

definition default_query_options :: RagQueryOptions where
  "default_query_options = \<lparr>topK = None, similarityThreshold = None, includeMetadata = None\<rparr>"

text \<open>Three documents; the content of the last one is a single space.\<close>

definition doc_a :: DocumentInput where
  "doc_a = \<lparr>d_content = ''alpha'', d_metadata = None, d_source = Some ''https://example.test/''\<rparr>"

definition doc_b :: DocumentInput where
  "doc_b = \<lparr>d_content = ''beta'', d_metadata = None, d_source = None\<rparr>"

definition doc_blank :: DocumentInput where
  "doc_blank = \<lparr>d_content = '' '', d_metadata = None, d_source = None\<rparr>"


section \<open>Properties of the crawl engine\<close>

declare crawl_loop.simps [simp del]

text \<open>
  An invariant of the loop body, under the loop's guard, holds of the state the loop
  ends in, whether it ends normally or by an exception.
\<close>

lemma crawl_loop_invariant:
  assumes "P c"
    and "\<And>c. P c \<Longrightarrow> queue c \<noteq> [] \<Longrightarrow> int (length (results c)) < mp \<Longrightarrow>
            P (snd (crawl_step w md inc exc c))"
  shows "P (snd (crawl_loop w md mp inc exc c))"
  using assms
proof (induction w md mp inc exc c rule: crawl_loop.induct)
  case (1 w md mp inc exc c)
  show ?case
  proof (cases "queue c \<noteq> [] \<and> int (length (results c)) < mp")
    case True
    then have step: "P (snd (crawl_step w md inc exc c))"
      using "1.prems" by blast
    show ?thesis
    proof (cases "fst (crawl_step w md inc exc c)")
      case None
      have "P (snd (crawl_loop w md mp inc exc (snd (crawl_step w md inc exc c))))"
        using "1.IH" [OF True None step] "1.prems"(2) by blast
      then show ?thesis
        using True None by (subst crawl_loop.simps) simp
    next
      case (Some e)
      then show ?thesis
        using True step by (subst crawl_loop.simps) simp
    qed
  next
    case False
    then show ?thesis
      using "1.prems"(1) by (subst crawl_loop.simps) auto
  qed
qed

lemma crawl_loop_exit:
  "queue c = [] \<or> \<not> int (length (results c)) < mp \<Longrightarrow> crawl_loop w md mp inc exc c = (None, c)"
  by (subst crawl_loop.simps) auto

lemma scrapePage_url: "scrapePage w u = Some page \<Longrightarrow> p_url page = u"
  by (auto simp: scrapePage_def split: option.splits)

lemma crawl_step_budget:
  assumes "budget_inv md mp c" "queue c \<noteq> []" "int (length (results c)) < mp"
  shows "budget_inv md mp (snd (crawl_step w md inc exc c))"
  using assms
  by (auto simp: budget_inv_def crawl_step_def Let_def scrapePage_url
      split: list.splits option.splits if_splits prod.splits)

lemma crawl_step_origin:
  assumes "origin_inv w seed c"
  shows "origin_inv w seed (snd (crawl_step w md inc exc c))"
  using assms
  by (auto simp: origin_inv_def crawl_step_def Let_def scrapePage_url
      split: list.splits option.splits if_splits prod.splits)

lemma crawl_run_budget:
  assumes "0 \<le> opt_maxPages options"
  shows "budget_inv (opt_maxDepth options) (opt_maxPages options) (snd (crawl_run w seed options V))"
  unfolding crawl_run_def
proof (rule crawl_loop_invariant [where P = "budget_inv (opt_maxDepth options) (opt_maxPages options)"])
  show "budget_inv (opt_maxDepth options) (opt_maxPages options)
          \<lparr>visitedUrls = {}, results = [], queue = [(seed, 0)], emitted = []\<rparr>"
    using assms by (simp add: budget_inv_def)
qed (rule crawl_step_budget)

lemma crawl_run_origin: "origin_inv w seed (snd (crawl_run w seed options V))"
  unfolding crawl_run_def
proof (rule crawl_loop_invariant [where P = "origin_inv w seed"])
  show "origin_inv w seed \<lparr>visitedUrls = {}, results = [], queue = [(seed, 0)], emitted = []\<rparr>"
    by (simp add: origin_inv_def)
qed (rule crawl_step_origin)

text \<open>The run of scenario A, evaluated.\<close>

lemma example_run:
  "crawl_run example_web ''https://example.test/'' example_options V =
     (None, \<lparr>visitedUrls = {''https://example.test/'', ''https://example.test/b''},
             results = example_pages, queue = [],
             emitted = [(''https://example.test/'', 0), (''https://example.test/b'', 1)]\<rparr>)"
  by (simp add: crawl_run_def opt_maxDepth_def opt_maxPages_def
      opt_includePaths_def opt_excludePaths_def crawl_loop.simps crawl_step_def scrapePage_def unique_def
      example_web_def example_options_def example_pages_def Let_def insert_commute)

lemma example_crawl:
  "crawlWebsite example_web ''https://example.test/'' example_options V =
     (Inr example_pages, {''https://example.test/'', ''https://example.test/b''})"
  by (simp add: crawlWebsite_def example_run)

text \<open>
  Claim C1. For a budget with \<open>0 \<le> maxPages\<close> (the specification declares
  \<open>maxPages\<close> an integer greater than 0), every list of pages that \<^verbatim>\<open>crawlWebsite\<close>
  returns has at most \<open>maxPages\<close> elements, and the tasks that were dequeued for the
  returned pages, in order, all have a depth of at most \<open>maxDepth\<close>.
\<close>

theorem crawl_budget:
  assumes "0 \<le> opt_maxPages options"
    and "crawlWebsite w seed options V = (Inr pages, V')"
  shows "int (length pages) \<le> opt_maxPages options \<and>
         map p_url pages = map fst (emitted (snd (crawl_run w seed options V))) \<and>
         (\<forall>t \<in> set (emitted (snd (crawl_run w seed options V))). snd t \<le> opt_maxDepth options)"
proof -
  have "pages = results (snd (crawl_run w seed options V))"
    using assms(2) by (auto simp: crawlWebsite_def Let_def split: option.splits)
  then show ?thesis
    using crawl_run_budget [OF assms(1), of w seed V] by (simp add: budget_inv_def)
qed

theorem crawl_budget_witness:
  "0 \<le> opt_maxPages example_options \<and>
   crawlWebsite example_web ''https://example.test/'' example_options {} =
     (Inr example_pages, {''https://example.test/'', ''https://example.test/b''}) \<and>
   int (length example_pages) \<le> opt_maxPages example_options \<and>
   list_all (\<lambda>t. snd t \<le> opt_maxDepth example_options)
     (emitted (snd (crawl_run example_web ''https://example.test/'' example_options {})))"
proof -
  have h: "0 \<le> opt_maxPages example_options"
    by (simp add: opt_maxPages_def example_options_def)
  show ?thesis
    using h example_crawl [of "{}"] crawl_budget [OF h example_crawl [of "{}"]]
    by (simp add: list_all_iff)
qed

text \<open>
  Claim C6. A URL whose hostname differs from the seed's is never requested (it never
  enters the visited set, which holds exactly the requested URLs) and is never the URL of
  a returned page, although it may be listed among the links of a returned page. The
  code compares a link's hostname with the hostname of the page it was found on; the
  origin invariant shows that this is the seed's hostname throughout.
\<close>

theorem crawl_same_origin:
  assumes "crawlWebsite w seed options V = (r, V')"
    and "url_hostname w l \<noteq> url_hostname w seed"
  shows "l \<notin> V' \<and> (\<forall>pages. r = Inr pages \<longrightarrow> l \<notin> p_url ` set pages)"
proof -
  let ?c = "snd (crawl_run w seed options V)"
  have V': "V' = visitedUrls ?c"
    using assms(1) by (auto simp: crawlWebsite_def Let_def)
  have r: "r = Inr pages \<Longrightarrow> pages = results ?c" for pages
    using assms(1) by (auto simp: crawlWebsite_def Let_def split: option.splits)
  have inv: "origin_inv w seed ?c"
    by (rule crawl_run_origin)
  have "l \<notin> visitedUrls ?c"
    using inv assms(2) by (auto simp: origin_inv_def)
  moreover have "l \<notin> p_url ` set (results ?c)"
    using inv assms(2) by (auto simp: origin_inv_def)
  ultimately show ?thesis
    using V' r by auto
qed

theorem crawl_same_origin_witness:
  "crawlWebsite example_web ''https://example.test/'' example_options {} =
     (Inr example_pages, {''https://example.test/'', ''https://example.test/b''}) \<and>
   url_hostname example_web ''https://other.test/'' \<noteq> url_hostname example_web ''https://example.test/'' \<and>
   ''https://other.test/'' \<in> set (p_links (hd example_pages)) \<and>
   http_get example_web ''https://other.test/'' \<noteq> None \<and>
   ''https://other.test/'' \<notin> p_url ` set example_pages"
proof -
  have h: "url_hostname example_web ''https://other.test/'' \<noteq>
           url_hostname example_web ''https://example.test/''"
    by (simp add: example_web_def)
  have l: "''https://other.test/'' \<in> set (p_links (hd example_pages))"
    by (simp add: example_pages_def)
  have g: "http_get example_web ''https://other.test/'' \<noteq> None"
    by (simp add: example_web_def)
  show ?thesis
    using h l g example_crawl [of "{}"] crawl_same_origin [OF example_crawl [of "{}"] h] by blast
qed

text \<open>
  Claim C4, as stated, fails: a seed that cannot be parsed and cannot be fetched makes
  \<^verbatim>\<open>crawlWebsite\<close> return normally, with no page, after the seed was marked visited
  and handed to \<^verbatim>\<open>scrapePage\<close>.
\<close>

theorem malformed_seed_counterexample:
  "crawlWebsite offline_web ''not a url'' default_options {} = (Inr [], {''not a url''})"
  by (simp add: crawlWebsite_def crawl_run_def opt_maxDepth_def opt_maxPages_def
      opt_includePaths_def opt_excludePaths_def crawl_loop.simps crawl_step_def scrapePage_def
      offline_web_def default_options_def Let_def)

text \<open>
  Claim C4, amended. \<^verbatim>\<open>crawlWebsite\<close> does not validate the seed. Whenever the request
  for the seed fails, as it does for a malformed URL, the call returns normally with the
  empty list of pages, whatever the options, and no URL other than the seed was requested.
\<close>

theorem crawl_unreachable_seed:
  assumes "http_get w seed = None"
  shows "fst (crawlWebsite w seed options V) = Inr [] \<and> snd (crawlWebsite w seed options V) \<subseteq> {seed}"
proof -
  let ?c0 = "\<lparr>visitedUrls = {}, results = [], queue = [(seed, 0)], emitted = []\<rparr>"
  have scrape: "scrapePage w seed = None"
    using assms by (simp add: scrapePage_def)
  have step: "fst (crawl_step w md inc exc ?c0) = None \<and>
              results (snd (crawl_step w md inc exc ?c0)) = [] \<and>
              queue (snd (crawl_step w md inc exc ?c0)) = [] \<and>
              visitedUrls (snd (crawl_step w md inc exc ?c0)) \<subseteq> {seed}" for md inc exc
    by (simp add: crawl_step_def Let_def scrape)
  have loop: "fst (crawl_loop w md mp inc exc ?c0) = None \<and>
              results (snd (crawl_loop w md mp inc exc ?c0)) = [] \<and>
              visitedUrls (snd (crawl_loop w md mp inc exc ?c0)) \<subseteq> {seed}" for md mp inc exc
  proof (cases "0 < mp")
    case True
    have "crawl_loop w md mp inc exc ?c0 =
            crawl_loop w md mp inc exc (snd (crawl_step w md inc exc ?c0))"
      using True step [of md inc exc] by (subst crawl_loop.simps) simp
    also have "\<dots> = (None, snd (crawl_step w md inc exc ?c0))"
      using step [of md inc exc] by (intro crawl_loop_exit) simp
    finally show ?thesis
      using step [of md inc exc] by simp
  next
    case False
    then have "crawl_loop w md mp inc exc ?c0 = (None, ?c0)"
      by (intro crawl_loop_exit) simp
    then show ?thesis by simp
  qed
  show ?thesis
    using loop by (simp add: crawlWebsite_def crawl_run_def Let_def)
qed

theorem crawl_unreachable_seed_witness:
  "http_get offline_web ''not a url'' = None \<and>
   fst (crawlWebsite offline_web ''not a url'' default_options {}) = Inr []"
  using crawl_unreachable_seed [of offline_web "''not a url''" default_options "{}"]
  by (simp add: offline_web_def)

text \<open>The schedules of the site of scenario A, evaluated: invocation A alone, and
  invocation B on page B called during A's first delay.\<close>

lemma example_schedule_alone:
  "overlapped example_web example_options ''https://example.test/''
     example_options ''https://example.test/b'' [CallA, StepA, StepA] =
   ({''https://example.test/'', ''https://example.test/b''},
    (None, \<lparr>visitedUrls = {''https://example.test/'', ''https://example.test/b''},
            results = example_pages, queue = [],
            emitted = [(''https://example.test/'', 0), (''https://example.test/b'', 1)]\<rparr>),
    idle)"
  by (simp add: overlapped_def event_step_def iteration_def call_def idle_def crawl_step_def
      scrapePage_def unique_def opt_maxDepth_def opt_maxPages_def opt_includePaths_def
      opt_excludePaths_def example_web_def example_options_def example_pages_def Let_def
      insert_commute)

lemma example_schedule_overlap:
  "overlapped example_web example_options ''https://example.test/''
     example_options ''https://example.test/b'' [CallA, StepA, CallB, StepB, StepA] =
   ({''https://example.test/b''},
    (None, \<lparr>visitedUrls = {''https://example.test/b''},
            results = [hd example_pages], queue = [],
            emitted = [(''https://example.test/'', 0)]\<rparr>),
    (None, \<lparr>visitedUrls = {''https://example.test/b''},
            results = [last example_pages], queue = [(''https://example.test/'', 1)],
            emitted = [(''https://example.test/b'', 0)]\<rparr>))"
  by (simp add: overlapped_def event_step_def iteration_def call_def idle_def crawl_step_def
      scrapePage_def unique_def opt_maxDepth_def opt_maxPages_def opt_includePaths_def
      opt_excludePaths_def example_web_def example_options_def example_pages_def Let_def
      insert_commute)

text \<open>
  Claim C9. The claim is that the visited set is scoped to one invocation and discarded
  when it completes, so that no visited URL stays on the crawl engine after
  \<^verbatim>\<open>crawlWebsite\<close> has returned and two invocations share no mutable state. The code
  keeps the visited set in a field of the singleton and only clears it when an invocation
  starts. On the site of scenario A: after the crawl of page A has returned its two
  pages, the field still holds both URLs; and when the crawl of page B is called during
  the first delay of the crawl of page A, it clears and refills the field, so that the
  crawl of page A finds page B visited, returns page A alone, and the field then holds
  the URL of page B only. Run alone under the same schedule model, the crawl of page A
  returns both pages, as \<^verbatim>\<open>crawlWebsite\<close> does.
\<close>

theorem overlapping_crawls_share_visited:
  "crawlWebsite example_web ''https://example.test/'' example_options {} =
     (Inr example_pages, {''https://example.test/'', ''https://example.test/b''}) \<and>
   returned example_options
     (fst (snd (overlapped example_web example_options ''https://example.test/''
                  example_options ''https://example.test/b'' [CallA, StepA, StepA]))) \<and>
   results (snd (fst (snd (overlapped example_web example_options ''https://example.test/''
                  example_options ''https://example.test/b'' [CallA, StepA, StepA])))) =
     example_pages \<and>
   returned example_options
     (fst (snd (overlapped example_web example_options ''https://example.test/''
                  example_options ''https://example.test/b''
                  [CallA, StepA, CallB, StepB, StepA]))) \<and>
   results (snd (fst (snd (overlapped example_web example_options ''https://example.test/''
                  example_options ''https://example.test/b''
                  [CallA, StepA, CallB, StepB, StepA])))) =
     [hd example_pages] \<and>
   fst (overlapped example_web example_options ''https://example.test/''
          example_options ''https://example.test/b''
          [CallA, StepA, CallB, StepB, StepA]) =
     {''https://example.test/b''}"
  unfolding example_schedule_alone example_schedule_overlap
  by (simp add: example_crawl returned_def)


section \<open>Properties of the retrieval pipeline\<close>

declare digits.simps [simp del]

lemma digits_small: "n < 10 \<Longrightarrow> digits n = [''0123456789'' ! n]"
  by (subst digits.simps) simp

lemma foldl_add_similarity:
  "foldl (\<lambda>sum r. sum + similarity r) a rs = a + sum_list (map similarity rs)"
  by (induction rs arbitrary: a) auto

lemma average_similarity_mean:
  "average_similarity rs =
     (if rs = [] then Num 0 else Num (sum_list (map similarity rs) / real (length rs)))"
  by (simp add: average_similarity_def js_divide_def foldl_add_similarity)

lemma assemble_average:
  "averageSimilarity (assemble q m d rs) =
     (if q_results (assemble q m d rs) = [] then Num 0
      else Num (sum_list (map similarity (q_results (assemble q m d rs))) /
                real (length (q_results (assemble q m d rs)))))"
  by (simp add: assemble_def average_similarity_mean comp_def)

lemma assemble_mean: "mean_similarity (assemble q m d rs)"
  using assemble_average [of q m d rs] by (simp add: mean_similarity_def)

lemma map_index_nth: "map_index f i xs = map (\<lambda>j. f (i + j) (xs ! j)) [0..<length xs]"
proof (induction xs arbitrary: i)
  case Nil
  then show ?case by simp
next
  case (Cons x xs)
  have "map (\<lambda>j. f (i + j) ((x # xs) ! j)) [0..<length (x # xs)] =
        f i x # map (\<lambda>j. f (i + Suc j) (xs ! j)) [0..<length xs]"
    by (simp add: upt_conv_Cons map_Suc_upt [symmetric] del: upt_Suc)
  then show ?case
    using Cons.IH [of "Suc i"] by simp
qed

lemma entry_spec: "entry i m = ''['' @ digits (i + 1) @ ''] '' @ r_content m @ spec_suffix m"
  by (auto simp: entry_def spec_suffix_def split: option.splits)

text \<open>
  Claim C8, as stated, fails for the empty list: the stated context of no match is the
  empty string, and \<^verbatim>\<open>buildContext\<close> returns a sentence.
\<close>

theorem buildContext_empty_counterexample:
  "buildContext [] = ''No relevant context found.'' \<and> spec_context [] = '''' "
  by (simp add: buildContext_def spec_context_def)

text \<open>
  Claim C8, amended. For a list of matches that is not empty the context is the stated
  one: the matches joined in rank order, each as \<^verbatim>\<open>[i] <content> [Source: <sourceURL>]\<close>
  with the suffix left out for a match without a source URL. For the empty list it is the
  text \<^verbatim>\<open>No relevant context found.\<close>
\<close>

theorem buildContext_ranked:
  "buildContext ms = (if ms = [] then ''No relevant context found.'' else spec_context ms)"
  by (simp add: buildContext_def spec_context_def map_index_nth entry_spec)

theorem buildContext_ranked_witness:
  "buildContext [match1, match2] =
     ''[1] alpha [Source: https://example.test/]'' @ [CHR 0x0A, CHR 0x0A] @ ''[2] beta''"
  using buildContext_ranked [of "[match1, match2]"]
  by (simp add: spec_context_def spec_suffix_def match1_def match2_def digits_small upt_rec)

subsection \<open>What the operations leave alone\<close>

lemma initialize_cases:
  "initialize sv s = (r, s1) \<Longrightarrow>
     documents s1 = documents s \<and> next_id s1 = next_id s \<and> cache s1 = cache s \<and>
     crawler_visited s1 = crawler_visited s \<and>
     (r = None \<longrightarrow> isInitialized s1) \<and>
     (isInitialized s \<longrightarrow> r = None \<and> s1 = s)"
  by (auto simp: initialize_def emb_initialize_def redis_connect_def log_io_def
      split: if_splits prod.splits option.splits)

lemma initialize_done: "isInitialized s \<Longrightarrow> initialize sv s = (None, s)"
  by (simp add: initialize_def)

lemma generateEmbedding_frame:
  "generateEmbedding sv text s = (r, s1) \<Longrightarrow>
     documents s1 = documents s \<and> next_id s1 = next_id s \<and> cache s1 = cache s \<and>
     isConnected s1 = isConnected s \<and> isInitialized s1 = isInitialized s \<and>
     crawler_visited s1 = crawler_visited s"
  by (auto simp: generateEmbedding_def openai_generateEmbedding_def emb_initialize_def log_io_def
      split: if_splits prod.splits option.splits list.splits)

lemma generateEmbedding_blank:
  "blank text \<Longrightarrow> generateEmbedding sv text s = (Inl TextEmpty, s)"
  by (simp add: generateEmbedding_def)

lemma searchSimilar_frame:
  "searchSimilar sv e k t s = (r, s1) \<Longrightarrow>
     documents s1 = documents s \<and> next_id s1 = next_id s \<and> cache s1 = cache s \<and>
     isConnected s1 = isConnected s \<and> isInitialized s1 = isInitialized s"
  by (auto simp: searchSimilar_def log_io_def split: if_splits option.splits)

lemma redis_get_frame:
  "redis_get sv key s = (r, s1) \<Longrightarrow>
     documents s1 = documents s \<and> cache s1 = cache s \<and>
     isConnected s1 = isConnected s \<and> isInitialized s1 = isInitialized s \<and>
     (r \<noteq> None \<longrightarrow> r = cache s key)"
  by (auto simp: redis_get_def log_io_def split: if_splits)

lemma redis_get_hit:
  "isConnected s \<Longrightarrow> redis_ok sv \<Longrightarrow> redis_get sv key s = (cache s key, log_io [RedisGet key] s)"
  by (simp add: redis_get_def)

lemma redis_set_stored:
  "isConnected s \<Longrightarrow> redis_ok sv \<Longrightarrow> cache (redis_set sv key v s) key = Some v"
  by (simp add: redis_set_def log_io_def)

lemma redis_set_frame:
  "isConnected (redis_set sv key v s) = isConnected s \<and>
   isInitialized (redis_set sv key v s) = isInitialized s \<and>
   documents (redis_set sv key v s) = documents s"
  by (simp add: redis_set_def log_io_def)

text \<open>After a successful query the result is in the cache, if the cache is usable.\<close>

lemma query_result_cached:
  assumes "query sv text options s = (Inr r, s1)" and "isConnected s1" and "redis_ok sv"
  shows "cache s1 (cacheKey text (opt_topK sv options)) = Some r \<and> isInitialized s1"
proof -
  obtain s0 where init: "initialize sv s = (None, s0)"
    using assms(1) by (auto simp: query_def split: prod.splits option.splits)
  have i0: "isInitialized s0"
    using initialize_cases [OF init] by simp
  let ?key = "cacheKey text (opt_topK sv options)"
  obtain c s2 where get: "redis_get sv ?key s0 = (c, s2)"
    by (cases "redis_get sv ?key s0")
  note g = redis_get_frame [OF get]
  show ?thesis
  proof (cases c)
    case (Some cached)
    then have "r = cached" "s1 = s2"
      using assms(1) init get by (auto simp: query_def)
    then show ?thesis
      using g Some i0 by auto
  next
    case None
    obtain emb s3 where emb: "generateEmbedding sv text s2 = (Inr emb, s3)"
      using assms(1) init get None
      by (auto simp: query_def split: prod.splits sum.splits)
    obtain rs s4 where search:
      "searchSimilar sv (e_embedding emb) (opt_topK sv options) (opt_similarityThreshold options) s3
         = (Inr rs, s4)"
      using assms(1) init get None emb
      by (auto simp: query_def split: prod.splits sum.splits)
    have res: "r = assemble text (opt_includeMetadata options) (e_dimensions emb) rs"
      and s1: "s1 = redis_set sv ?key r s4"
      using assms(1) init get None emb search by (auto simp: query_def Let_def)
    have "isConnected s4" "isInitialized s4"
      using assms(2) s1 redis_set_frame [of sv ?key r s4] i0 g
        generateEmbedding_frame [OF emb] searchSimilar_frame [OF search] by auto
    then show ?thesis
      using s1 redis_set_stored [of s4 sv ?key r] assms(3) redis_set_frame [of sv ?key r s4]
      by simp
  qed
qed

lemma cacheKey_5: "cacheKey text 5 = ''rag:query:'' @ text @ '':5''"
  by (simp add: cacheKey_def generateKey_def toString_def digits_small)

lemma example_query_strict:
  "query example_services ''q'' strict_options ready_system =
     (Inr (assemble ''q'' True 2 [match1]),
      ready_system\<lparr>cache := [''rag:query:q:5'' \<mapsto> assemble ''q'' True 2 [match1]],
                    io_log := [RedisGet ''rag:query:q:5'', PipelineRun ''q'', DbSearch,
                               RedisSetEx ''rag:query:q:5'']\<rparr>)"
  by (simp add: query_def initialize_def redis_get_def redis_set_def generateEmbedding_def
      searchSimilar_def blank_def is_space_def log_io_def opt_topK_def opt_similarityThreshold_def
      opt_includeMetadata_def cacheKey_5 example_services_def ready_system_def strict_options_def
      match1_def match2_def Let_def numeral_2_eq_2)

lemma example_query_lax_cold:
  "fst (query example_services ''q'' lax_options ready_system) =
     Inr (assemble ''q'' True 2 [match1, match2])"
  by (simp add: query_def initialize_def redis_get_def redis_set_def generateEmbedding_def
      searchSimilar_def blank_def is_space_def log_io_def opt_topK_def opt_similarityThreshold_def
      opt_includeMetadata_def cacheKey_5 example_services_def ready_system_def lax_options_def
      match1_def match2_def Let_def numeral_2_eq_2)

text \<open>
  Claim C7. The \<^verbatim>\<open>averageSimilarity\<close> that a query reports is the number 0 when the
  result has no match, and otherwise the sum of the similarities of its matches divided
  by their number; it is never \<^verbatim>\<open>NaN\<close>. This holds of every result computed by
  \<^verbatim>\<open>query\<close>, hence of every result served from a cache that only \<^verbatim>\<open>query\<close> has
  filled: the property of the cached results is an invariant. The similarities are taken
  as real numbers.
\<close>

theorem query_average_similarity:
  assumes "\<forall>k r. cache s k = Some r \<longrightarrow> mean_similarity r"
    and "query sv text options s = (Inr r, s1)"
  shows "mean_similarity r \<and> averageSimilarity r \<noteq> NaN \<and>
         (\<forall>k r. cache s1 k = Some r \<longrightarrow> mean_similarity r)"
proof -
  obtain s0 where init: "initialize sv s = (None, s0)"
    using assms(2) by (auto simp: query_def split: prod.splits option.splits)
  have c0: "cache s0 = cache s"
    using initialize_cases [OF init] by simp
  let ?key = "cacheKey text (opt_topK sv options)"
  obtain c s2 where get: "redis_get sv ?key s0 = (c, s2)"
    by (cases "redis_get sv ?key s0")
  note g = redis_get_frame [OF get]
  have main: "mean_similarity r \<and> (\<forall>k r. cache s1 k = Some r \<longrightarrow> mean_similarity r)"
  proof (cases c)
    case (Some cached)
    then have "r = cached" "s1 = s2"
      using assms(2) init get by (auto simp: query_def)
    then show ?thesis
      using g Some c0 assms(1) by auto
  next
    case None
    obtain emb s3 where emb: "generateEmbedding sv text s2 = (Inr emb, s3)"
      using assms(2) init get None
      by (auto simp: query_def split: prod.splits sum.splits)
    obtain rs s4 where search:
      "searchSimilar sv (e_embedding emb) (opt_topK sv options) (opt_similarityThreshold options) s3
         = (Inr rs, s4)"
      using assms(2) init get None emb
      by (auto simp: query_def split: prod.splits sum.splits)
    have res: "r = assemble text (opt_includeMetadata options) (e_dimensions emb) rs"
      and s1: "s1 = redis_set sv ?key r s4"
      using assms(2) init get None emb search by (auto simp: query_def Let_def)
    have c4: "cache s4 = cache s"
      using c0 g generateEmbedding_frame [OF emb] searchSimilar_frame [OF search] by simp
    have r: "mean_similarity r"
      unfolding res by (rule assemble_mean)
    have "cache s1 k = Some r' \<Longrightarrow> mean_similarity r'" for k r'
      using s1 c4 r assms(1) by (auto simp: redis_set_def log_io_def split: if_splits)
    then show ?thesis
      using r by blast
  qed
  then have "averageSimilarity r \<noteq> NaN"
    by (auto simp: mean_similarity_def split: if_splits)
  then show ?thesis
    using main by blast
qed

theorem query_average_similarity_witness:
  "mean_similarity (assemble ''q'' True 2 [match1]) \<and>
   averageSimilarity (assemble ''q'' True 2 [match1]) = Num (9 / 10) \<and>
   averageSimilarity (assemble ''q'' True 2 []) = Num 0"
proof -
  have e: "\<forall>k r. cache ready_system k = Some r \<longrightarrow> mean_similarity r"
    by (simp add: ready_system_def)
  have "mean_similarity (assemble ''q'' True 2 [match1])"
    using query_average_similarity [OF e example_query_strict] by simp
  then show ?thesis
    by (simp add: mean_similarity_def assemble_def match1_def average_similarity_mean)
qed

text \<open>
  Claim C2. The cache key is computed from the query text and \<open>topK\<close> alone. When a
  query has returned a result and the cache is usable (connected, commands succeed), the
  same text and \<open>topK\<close> queried again return that very result, whatever the threshold
  and \<^verbatim>\<open>includeMetadata\<close> of the second call: the only external call is the cache
  lookup, and nothing is filtered again. If the cache was warm for the first call already,
  both calls return the stored value as it is.
\<close>

theorem query_cache_ignores_threshold:
  assumes "query sv text \<lparr>topK = k, similarityThreshold = t1, includeMetadata = m1\<rparr> s = (Inr r, s1)"
    and "isConnected s1" and "redis_ok sv"
  shows "cacheKey text (opt_topK sv \<lparr>topK = k, similarityThreshold = t2, includeMetadata = m2\<rparr>) =
           cacheKey text (opt_topK sv \<lparr>topK = k, similarityThreshold = t1, includeMetadata = m1\<rparr>) \<and>
         query sv text \<lparr>topK = k, similarityThreshold = t2, includeMetadata = m2\<rparr> s1 =
           (Inr r, log_io [RedisGet (cacheKey text
              (opt_topK sv \<lparr>topK = k, similarityThreshold = t1, includeMetadata = m1\<rparr>))] s1) \<and>
         (\<forall>v. isInitialized s \<and> isConnected s \<and>
              cache s (cacheKey text
                (opt_topK sv \<lparr>topK = k, similarityThreshold = t1, includeMetadata = m1\<rparr>)) = Some v \<longrightarrow>
              r = v)"
proof -
  let ?o1 = "\<lparr>topK = k, similarityThreshold = t1, includeMetadata = m1\<rparr>"
  let ?o2 = "\<lparr>topK = k, similarityThreshold = t2, includeMetadata = m2\<rparr>"
  have key: "cacheKey text (opt_topK sv ?o2) = cacheKey text (opt_topK sv ?o1)"
    by (simp add: opt_topK_def)
  have warm: "cache s1 (cacheKey text (opt_topK sv ?o1)) = Some r" and init: "isInitialized s1"
    using query_result_cached [OF assms] by simp_all
  have again: "query sv text ?o2 s1 =
          (Inr r, log_io [RedisGet (cacheKey text (opt_topK sv ?o1))] s1)"
    using warm key by (simp add: query_def initialize_done [OF init]
        redis_get_hit [OF assms(2) assms(3)])
  have hit: "r = v"
    if i: "isInitialized s" and c: "isConnected s"
      and v: "cache s (cacheKey text (opt_topK sv ?o1)) = Some v" for v
  proof -
    have "query sv text ?o1 s = (Inr v, log_io [RedisGet (cacheKey text (opt_topK sv ?o1))] s)"
      using v by (simp add: query_def initialize_done [OF i] redis_get_hit [OF c assms(3)])
    then show ?thesis
      using assms(1) by simp
  qed
  show ?thesis
    using key again hit by simp
qed

theorem query_cache_ignores_threshold_witness:
  "fst (query example_services ''q'' strict_options ready_system) = Inr (assemble ''q'' True 2 [match1]) \<and>
   fst (query example_services ''q'' lax_options
          (snd (query example_services ''q'' strict_options ready_system))) =
     Inr (assemble ''q'' True 2 [match1]) \<and>
   fst (query example_services ''q'' lax_options ready_system) =
     Inr (assemble ''q'' True 2 [match1, match2])"
proof -
  let ?s1 = "snd (query example_services ''q'' strict_options ready_system)"
  have run: "query example_services ''q''
               \<lparr>topK = Some 5, similarityThreshold = Some (85 / 100), includeMetadata = Some True\<rparr>
               ready_system = (Inr (assemble ''q'' True 2 [match1]), ?s1)"
    using example_query_strict by (simp add: strict_options_def)
  have conn: "isConnected ?s1"
    unfolding example_query_strict by (simp add: ready_system_def)
  have ok: "redis_ok example_services"
    by (simp add: example_services_def)
  show ?thesis
    using query_cache_ignores_threshold [OF run conn ok, of "Some 0" "Some True"]
      example_query_strict example_query_lax_cold
    by (simp add: lax_options_def)
qed

text \<open>
  Claim C3, as stated, fails: on an initialised agent with a connected cache, the query
  with the empty text is rejected only after the cache was asked for its key.
\<close>

theorem empty_query_counterexample:
  "io_log ready_system = [] \<and>
   fst (query example_services '''' default_query_options ready_system) = Inl (QueryFailed TextEmpty) \<and>
   io_log (snd (query example_services '''' default_query_options ready_system)) =
     [RedisGet ''rag:query::5'']"
  by (simp add: query_def initialize_def redis_get_def generateEmbedding_def blank_def log_io_def
      opt_topK_def cacheKey_5 example_services_def ready_system_def default_query_options_def)

text \<open>
  Claim C3, amended. \<^verbatim>\<open>query\<close> itself does not validate the text; the embedding
  service does. On an initialised agent, a query whose text is empty (or white space) and
  whose cache lookup misses is rejected with the wrapped error of the embedding service;
  the cache lookup, made when the cache is connected, is the only external call: no
  embedding provider and no vector store is called.
\<close>

theorem query_blank_text:
  assumes "blank text" and "isInitialized s"
    and "fst (redis_get sv (cacheKey text (opt_topK sv options)) s) = None"
  shows "query sv text options s =
           (Inl (QueryFailed TextEmpty),
            if isConnected s then log_io [RedisGet (cacheKey text (opt_topK sv options))] s else s)"
  using assms
  by (auto simp: query_def initialize_done generateEmbedding_blank redis_get_def
      split: prod.splits option.splits if_splits)

theorem query_blank_text_witness:
  "blank '''' \<and> isInitialized ready_system \<and>
   query example_services '''' default_query_options ready_system =
     (Inl (QueryFailed TextEmpty), log_io [RedisGet ''rag:query::5''] ready_system)"
proof -
  have b: "blank ''''" by (simp add: blank_def)
  have i: "isInitialized ready_system" by (simp add: ready_system_def)
  have c: "isConnected ready_system" by (simp add: ready_system_def)
  have k: "cacheKey '''' (opt_topK example_services default_query_options) = ''rag:query::5''"
    using cacheKey_5 [of "''''"] by (simp add: opt_topK_def example_services_def default_query_options_def)
  have m: "fst (redis_get example_services
             (cacheKey '''' (opt_topK example_services default_query_options)) ready_system) = None"
    by (simp add: redis_get_def ready_system_def example_services_def)
  show ?thesis
    using query_blank_text [OF b i m] b i c k by simp
qed

text \<open>
  Claim C10. \<^verbatim>\<open>addDocuments([])\<close> always throws: on an initialised agent the error is
  the one of the empty texts array and nothing at all was called, whichever provider is
  configured (the state, with its log of external calls, is unchanged); otherwise the
  initialisation runs first and either fails or is followed by that error. Hence
  \<^verbatim>\<open>indexWebsite\<close> throws whenever the crawl returns no page.
\<close>

theorem addDocuments_empty:
  "(\<exists>e s1. addDocuments sv [] s = Some (Inl e, s1) \<and> (isInitialized s \<longrightarrow> e = TextsEmpty \<and> s1 = s)) \<and>
   (fst (crawlWebsite w u options V) = Inr [] \<longrightarrow>
      (\<exists>e s1. indexWebsite sv w u options s = Some (Inl e, s1)))"
proof
  show add: "\<exists>e s1. addDocuments sv [] s = Some (Inl e, s1) \<and> (isInitialized s \<longrightarrow> e = TextsEmpty \<and> s1 = s)" for s
    by (cases "initialize sv s")
      (auto simp: addDocuments_def generateEmbeddings_def initialize_done split: option.splits)
  show "fst (crawlWebsite w u options V) = Inr [] \<longrightarrow>
          (\<exists>e s1. indexWebsite sv w u options s = Some (Inl e, s1))"
  proof
    assume crawl: "fst (crawlWebsite w u options V) = Inr []"
    obtain r0 s0 where init: "initialize sv s = (r0, s0)"
      by (cases "initialize sv s")
    have same: "crawlWebsite w u options (crawler_visited s0) = crawlWebsite w u options V"
      by (simp add: crawlWebsite_def crawl_run_def)
    obtain V' where run: "crawlWebsite w u options (crawler_visited s0) = (Inr [], V')"
      using crawl same by (cases "crawlWebsite w u options V") auto
    obtain e s1 where "addDocuments sv [] (s0\<lparr>crawler_visited := V'\<rparr>) = Some (Inl e, s1)"
      using add by blast
    then show "\<exists>e s1. indexWebsite sv w u options s = Some (Inl e, s1)"
      using init run by (cases r0) (auto simp: indexWebsite_def pagesToDocuments_def)
  qed
qed

theorem addDocuments_empty_witness:
  "addDocuments example_services [] ready_system = Some (Inl TextsEmpty, ready_system) \<and>
   addDocuments (example_services\<lparr>provider := OpenAI\<rparr>) [] ready_system = Some (Inl TextsEmpty, ready_system) \<and>
   fst (crawlWebsite offline_web ''not a url'' default_options {}) = Inr [] \<and>
   indexWebsite example_services offline_web ''not a url'' default_options ready_system =
     Some (Inl TextsEmpty, ready_system\<lparr>crawler_visited := {''not a url''}\<rparr>)"
proof -
  have i: "isInitialized ready_system" by (simp add: ready_system_def)
  have c: "crawlWebsite offline_web ''not a url'' default_options V = (Inr [], {''not a url''})" for V
    by (simp add: crawlWebsite_def crawl_run_def opt_maxDepth_def opt_maxPages_def
      opt_includePaths_def opt_excludePaths_def crawl_loop.simps crawl_step_def scrapePage_def
      offline_web_def default_options_def Let_def)
  have x: "indexWebsite example_services offline_web ''not a url'' default_options ready_system =
     Some (Inl TextsEmpty, ready_system\<lparr>crawler_visited := {''not a url''}\<rparr>)"
    by (simp add: indexWebsite_def initialize_done [OF i] c pagesToDocuments_def addDocuments_def
        initialize_def generateEmbeddings_def ready_system_def)
  show ?thesis
    using addDocuments_empty [of example_services ready_system offline_web "''not a url''" default_options "{}"]
      addDocuments_empty [of "example_services\<lparr>provider := OpenAI\<rparr>" ready_system offline_web "''not a url''" default_options "{}"]
      i c [of "{}"] x
    by auto
qed


section \<open>Batch ingestion\<close>

subsection \<open>The embedding of a batch\<close>

lemma generateEmbedding_db:
  "generateEmbedding sv t s = (r, s1) \<Longrightarrow>
     documents s1 = documents s \<and> next_id s1 = next_id s \<and>
     (emb_isInitialized s \<longrightarrow> emb_isInitialized s1)"
  by (auto simp: generateEmbedding_def openai_generateEmbedding_def emb_initialize_def log_io_def
      split: if_splits prod.splits option.splits list.splits)

lemma generateEmbedding_local:
  assumes "provider sv = Local" and "emb_isInitialized s"
  shows "fst (generateEmbedding sv t s) =
           (if blank t then Inl TextEmpty
            else case pipeline sv t of
                   None \<Rightarrow> Inl EmbeddingFailed
                 | Some v \<Rightarrow> Inr \<lparr>e_embedding = v, e_dimensions = length v, e_model = modelName sv\<rparr>)"
  using assms by (simp add: generateEmbedding_def split: option.splits)

lemma embed_all_db:
  "embed_all sv ts s = (r, s1) \<Longrightarrow>
     documents s1 = documents s \<and> next_id s1 = next_id s \<and>
     (emb_isInitialized s \<longrightarrow> emb_isInitialized s1) \<and>
     (\<forall>es. r = Inr es \<longrightarrow> length es = length ts)"
proof (induction ts arbitrary: s r s1)
  case Nil
  then show ?case by auto
next
  case (Cons t ts)
  obtain r0 s0 where g: "generateEmbedding sv t s = (r0, s0)"
    by (cases "generateEmbedding sv t s")
  obtain rs s2 where a: "embed_all sv ts s0 = (rs, s2)"
    by (cases "embed_all sv ts s0")
  have s1: "s1 = s2"
    using Cons.prems g a by (auto split: sum.splits)
  have len: "r = Inr es \<Longrightarrow> length es = Suc (length ts)" for es
    using Cons.prems g a Cons.IH [OF a] by (auto split: sum.splits)
  show ?case
    using generateEmbedding_db [OF g] Cons.IH [OF a] s1 len by auto
qed

lemma embed_all_local_fail:
  assumes "provider sv = Local" and "emb_isInitialized s"
    and "\<exists>t \<in> set ts. blank t \<or> pipeline sv t = None"
  shows "isl (fst (embed_all sv ts s))"
  using assms(2,3)
proof (induction ts arbitrary: s)
  case Nil
  then show ?case by simp
next
  case (Cons t ts)
  obtain r0 s0 where g: "generateEmbedding sv t s = (r0, s0)"
    by (cases "generateEmbedding sv t s")
  obtain rs s2 where a: "embed_all sv ts s0 = (rs, s2)"
    by (cases "embed_all sv ts s0")
  have i0: "emb_isInitialized s0"
    using generateEmbedding_db [OF g] Cons.prems(1) by simp
  have r0: "r0 = fst (generateEmbedding sv t s)"
    using g by simp
  show ?case
  proof (cases "blank t \<or> pipeline sv t = None")
    case True
    then have "isl r0"
      unfolding r0 generateEmbedding_local [OF assms(1) Cons.prems(1)] by auto
    then show ?thesis
      using g a by (auto split: sum.splits)
  next
    case False
    then have "\<exists>t \<in> set ts. blank t \<or> pipeline sv t = None"
      using Cons.prems(2) by auto
    then have "isl rs"
      using Cons.IH [OF i0] a by simp
    then show ?thesis
      using g a by (auto split: sum.splits)
  qed
qed

lemma embed_all_local_ok:
  assumes "provider sv = Local" and "emb_isInitialized s"
    and "\<forall>t \<in> set ts. \<not> blank t \<and> pipeline sv t \<noteq> None"
  shows "\<exists>es. fst (embed_all sv ts s) = Inr es \<and>
              map (\<lambda>e. Some (e_embedding e)) es = map (pipeline sv) ts"
  using assms(2,3)
proof (induction ts arbitrary: s)
  case Nil
  then show ?case by simp
next
  case (Cons t ts)
  obtain r0 s0 where g: "generateEmbedding sv t s = (r0, s0)"
    by (cases "generateEmbedding sv t s")
  obtain rs s2 where a: "embed_all sv ts s0 = (rs, s2)"
    by (cases "embed_all sv ts s0")
  have i0: "emb_isInitialized s0"
    using generateEmbedding_db [OF g] Cons.prems(1) by simp
  obtain v where v: "pipeline sv t = Some v" and nb: "\<not> blank t"
    using Cons.prems(2) by auto
  have r0: "r0 = Inr \<lparr>e_embedding = v, e_dimensions = length v, e_model = modelName sv\<rparr>"
    using generateEmbedding_local [OF assms(1) Cons.prems(1), of t] g v nb by simp
  obtain es where es: "rs = Inr es" "map (\<lambda>e. Some (e_embedding e)) es = map (pipeline sv) ts"
    using Cons.IH [OF i0] Cons.prems(2) a by auto
  show ?case
    using g a r0 es v by simp
qed

lemma embed_batches_total:
  assumes "0 < maxBatchSize sv"
  shows "\<exists>r s1. embed_batches sv texts i acc s = Some (r, s1) \<and>
           documents s1 = documents s \<and> next_id s1 = next_id s \<and>
           (\<forall>es. r = Inr es \<longrightarrow> length es = length acc + (length texts - i))"
proof (induction "length texts - i" arbitrary: i acc s rule: less_induct)
  case less
  let ?m = "maxBatchSize sv"
  show ?case
  proof (cases "i < length texts")
    case False
    then show ?thesis
      by (subst embed_batches.simps) simp
  next
    case True
    obtain r0 s0 where b: "embed_all sv (take ?m (drop i texts)) s = (r0, s0)"
      by (cases "embed_all sv (take ?m (drop i texts)) s")
    note f = embed_all_db [OF b]
    show ?thesis
    proof (cases r0)
      case (Inl e)
      then show ?thesis
        using True b f by (subst embed_batches.simps) simp
    next
      case (Inr bs)
      have lt: "length texts - (i + ?m) < length texts - i"
        using True assms by linarith
      obtain r s1 where rec:
        "embed_batches sv texts (i + ?m) (acc @ bs) s0 = Some (r, s1)"
        "documents s1 = documents s0" "next_id s1 = next_id s0"
        "\<forall>es. r = Inr es \<longrightarrow> length es = length (acc @ bs) + (length texts - (i + ?m))"
        using less [OF lt, of "acc @ bs" s0] by blast
      have lbs: "length bs = min ?m (length texts - i)"
        using f Inr by simp
      have "embed_batches sv texts i acc s = Some (r, s1)"
        using True b Inr rec(1) by (subst embed_batches.simps) simp
      moreover have "\<forall>es. r = Inr es \<longrightarrow> length es = length acc + (length texts - i)"
        using rec(4) lbs by auto
      ultimately show ?thesis
        using rec(2,3) f by simp
    qed
  qed
qed

lemma embed_batches_local_fail:
  assumes "0 < maxBatchSize sv" and "provider sv = Local"
  shows "emb_isInitialized s \<Longrightarrow> \<exists>t \<in> set (drop i texts). blank t \<or> pipeline sv t = None \<Longrightarrow>
         \<exists>e s1. embed_batches sv texts i acc s = Some (Inl e, s1)"
proof (induction "length texts - i" arbitrary: i acc s rule: less_induct)
  case less
  let ?m = "maxBatchSize sv"
  have True: "i < length texts"
    using less.prems(2) by (cases "i < length texts") auto
  obtain r0 s0 where b: "embed_all sv (take ?m (drop i texts)) s = (r0, s0)"
    by (cases "embed_all sv (take ?m (drop i texts)) s")
  note f = embed_all_db [OF b]
  show ?case
  proof (cases r0)
    case (Inl e)
    then show ?thesis
      using True b by (subst embed_batches.simps) simp
  next
    case (Inr bs)
    have "\<not> (\<exists>t \<in> set (take ?m (drop i texts)). blank t \<or> pipeline sv t = None)"
      using embed_all_local_fail [OF assms(2) less.prems(1), of "take ?m (drop i texts)"] b Inr
      by auto
    moreover have "set (drop i texts) = set (take ?m (drop i texts)) \<union> set (drop (i + ?m) texts)"
      by (metis add.commute append_take_drop_id drop_drop set_append)
    ultimately have bad: "\<exists>t \<in> set (drop (i + ?m) texts). blank t \<or> pipeline sv t = None"
      using less.prems(2) by auto
    have lt: "length texts - (i + ?m) < length texts - i"
      using True assms(1) by linarith
    have i0: "emb_isInitialized s0"
      using f less.prems(1) by simp
    obtain e s1 where "embed_batches sv texts (i + ?m) (acc @ bs) s0 = Some (Inl e, s1)"
      using less.hyps [OF lt i0 bad] by blast
    then show ?thesis
      using True b Inr by (subst embed_batches.simps) simp
  qed
qed

lemma embed_batches_local_ok:
  assumes "0 < maxBatchSize sv" and "provider sv = Local"
  shows "emb_isInitialized s \<Longrightarrow> \<forall>t \<in> set (drop i texts). \<not> blank t \<and> pipeline sv t \<noteq> None \<Longrightarrow>
         \<exists>es s1. embed_batches sv texts i acc s = Some (Inr es, s1) \<and>
           map (\<lambda>e. Some (e_embedding e)) es =
             map (\<lambda>e. Some (e_embedding e)) acc @ map (pipeline sv) (drop i texts)"
proof (induction "length texts - i" arbitrary: i acc s rule: less_induct)
  case less
  let ?m = "maxBatchSize sv"
  show ?case
  proof (cases "i < length texts")
    case False
    then show ?thesis
      by (subst embed_batches.simps) simp
  next
    case True
    obtain r0 s0 where b: "embed_all sv (take ?m (drop i texts)) s = (r0, s0)"
      by (cases "embed_all sv (take ?m (drop i texts)) s")
    note f = embed_all_db [OF b]
    have split: "drop i texts = take ?m (drop i texts) @ drop (i + ?m) texts"
      by (metis add.commute append_take_drop_id drop_drop)
    have good1: "\<forall>t \<in> set (take ?m (drop i texts)). \<not> blank t \<and> pipeline sv t \<noteq> None"
      and good2: "\<forall>t \<in> set (drop (i + ?m) texts). \<not> blank t \<and> pipeline sv t \<noteq> None"
      using less.prems(2) split by (metis Un_iff set_append)+
    obtain bs where bs: "r0 = Inr bs"
      "map (\<lambda>e. Some (e_embedding e)) bs = map (pipeline sv) (take ?m (drop i texts))"
      using embed_all_local_ok [OF assms(2) less.prems(1) good1] b by auto
    have lt: "length texts - (i + ?m) < length texts - i"
      using True assms(1) by linarith
    have i0: "emb_isInitialized s0"
      using f less.prems(1) by simp
    obtain es s1 where rec: "embed_batches sv texts (i + ?m) (acc @ bs) s0 = Some (Inr es, s1)"
      "map (\<lambda>e. Some (e_embedding e)) es =
         map (\<lambda>e. Some (e_embedding e)) (acc @ bs) @ map (pipeline sv) (drop (i + ?m) texts)"
      using less.hyps [OF lt i0 good2] by blast
    have "embed_batches sv texts i acc s = Some (Inr es, s1)"
      using True b bs(1) rec(1) by (subst embed_batches.simps) simp
    moreover have "map (pipeline sv) (drop i texts) =
        map (pipeline sv) (take ?m (drop i texts)) @ map (pipeline sv) (drop (i + ?m) texts)"
      by (metis split map_append)
    then have "map (\<lambda>e. Some (e_embedding e)) es =
        map (\<lambda>e. Some (e_embedding e)) acc @ map (pipeline sv) (drop i texts)"
      using rec(2) bs(2) by simp
    ultimately show ?thesis by blast
  qed
qed

declare openai_chunks.simps [simp del]

lemma processBatch_db:
  "processBatch sv ts s = (r, s1) \<Longrightarrow> documents s1 = documents s \<and> next_id s1 = next_id s"
  by (auto simp: processBatch_def log_io_def split: option.splits)

lemma openai_chunks_db:
  "openai_chunks sv texts i acc s = (r, s1) \<Longrightarrow> documents s1 = documents s \<and> next_id s1 = next_id s"
proof (induction sv texts i acc s arbitrary: r s1 rule: openai_chunks.induct)
  case (1 sv texts i acc s)
  show ?case
  proof (cases "i < length texts")
    case False
    then show ?thesis using "1.prems" by (subst (asm) openai_chunks.simps) auto
  next
    case True
    obtain r0 s0 where b: "processBatch sv (take 2048 (drop i texts)) s = (r0, s0)"
      by (cases "processBatch sv (take 2048 (drop i texts)) s")
    show ?thesis
    proof (cases r0)
      case (Inl e)
      then show ?thesis
        using "1.prems" True b processBatch_db [OF b] by (subst (asm) openai_chunks.simps) auto
    next
      case (Inr bs)
      have "openai_chunks sv texts (i + 2048) (acc @ bs) s0 = (r, s1)"
        using "1.prems" True b Inr by (subst (asm) openai_chunks.simps) simp
      then show ?thesis
        using "1.IH" [OF True b [symmetric] Inr] processBatch_db [OF b] by simp
    qed
  qed
qed

lemma emb_initialize_db:
  "emb_initialize sv s = (r, s1) \<Longrightarrow>
     documents s1 = documents s \<and> next_id s1 = next_id s \<and> (r = None \<longrightarrow> emb_isInitialized s1)"
  by (auto simp: emb_initialize_def log_io_def split: if_splits)

lemma generateEmbeddings_total:
  assumes "0 < maxBatchSize sv"
  shows "\<exists>r s1. generateEmbeddings sv texts s = Some (r, s1) \<and>
           documents s1 = documents s \<and> next_id s1 = next_id s \<and>
           (\<forall>es. r = Inr es \<longrightarrow> texts \<noteq> [])"
proof (cases "texts = []")
  case True
  then show ?thesis by (simp add: generateEmbeddings_def)
next
  case ne: False
  show ?thesis
  proof (cases "provider sv = OpenAI")
    case True
    obtain r s1 where o: "openai_generateEmbeddings sv texts s = (r, s1)"
      by (cases "openai_generateEmbeddings sv texts s")
    then have "documents s1 = documents s \<and> next_id s1 = next_id s"
      using processBatch_db [of sv texts s r s1] openai_chunks_db [of sv texts 0 "[]" s r s1]
      by (auto simp: openai_generateEmbeddings_def split: if_splits)
    then show ?thesis
      using ne True o by (simp add: generateEmbeddings_def)
  next
    case False
    obtain r0 s0 where i: "(if emb_isInitialized s then (None, s) else emb_initialize sv s) = (r0, s0)"
      by (cases "if emb_isInitialized s then (None, s) else emb_initialize sv s")
    have f0: "documents s0 = documents s \<and> next_id s0 = next_id s"
      using i emb_initialize_db [of sv s r0 s0] by (auto split: if_splits)
    show ?thesis
    proof (cases r0)
      case (Some e)
      then show ?thesis
        using ne False i f0 by (simp add: generateEmbeddings_def)
    next
      case None
      obtain r s1 where "embed_batches sv texts 0 [] s0 = Some (r, s1)"
        "documents s1 = documents s0" "next_id s1 = next_id s0"
        using embed_batches_total [OF assms, of texts 0 "[]" s0] by blast
      then show ?thesis
        using ne False i None f0 by (simp add: generateEmbeddings_def)
    qed
  qed
qed

lemma generateEmbeddings_local_fail:
  assumes "0 < maxBatchSize sv" and "provider sv = Local"
    and "\<exists>t \<in> set texts. blank t \<or> pipeline sv t = None"
  shows "\<exists>e s1. generateEmbeddings sv texts s = Some (Inl e, s1)"
proof -
  have ne: "texts \<noteq> []" using assms(3) by auto
  obtain r0 s0 where i: "(if emb_isInitialized s then (None, s) else emb_initialize sv s) = (r0, s0)"
    by (cases "if emb_isInitialized s then (None, s) else emb_initialize sv s")
  show ?thesis
  proof (cases r0)
    case (Some e)
    then show ?thesis
      using ne assms(2) i by (simp add: generateEmbeddings_def)
  next
    case None
    have "emb_isInitialized s0"
      using i None emb_initialize_db [of sv s r0 s0] by (auto split: if_splits)
    then obtain e s1 where "embed_batches sv texts 0 [] s0 = Some (Inl e, s1)"
      using embed_batches_local_fail [OF assms(1,2), of s0 0 texts "[]"] assms(3) by auto
    then show ?thesis
      using ne assms(2) i None by (simp add: generateEmbeddings_def)
  qed
qed

lemma generateEmbeddings_local_ok:
  assumes "0 < maxBatchSize sv" and "provider sv = Local" and "emb_isInitialized s"
    and "texts \<noteq> []" and "\<forall>t \<in> set texts. \<not> blank t \<and> pipeline sv t \<noteq> None"
  shows "\<exists>es s1. generateEmbeddings sv texts s = Some (Inr es, s1) \<and>
           map (\<lambda>e. Some (e_embedding e)) es = map (pipeline sv) texts"
  using embed_batches_local_ok [OF assms(1,2,3), of 0 texts "[]"] assms(2,3,4,5)
  by (auto simp: generateEmbeddings_def)

subsection \<open>The insertion of a batch\<close>

lemma insert_rows_ok:
  "insert_rows sv ds n rows ids = (True, n', rows', ids') \<Longrightarrow>
     \<exists>new. rows' = rows @ new \<and> ids' = ids @ [n..<n + length ds] \<and>
           map row_id new = [n..<n + length ds] \<and>
           map row_content new = map de_content ds \<and>
           map row_source new = map de_source ds \<and>
           map row_embedding new = map de_embedding ds"
proof (induction ds arbitrary: n rows ids)
  case Nil
  then show ?case by simp
next
  case (Cons d ds)
  let ?row = "\<lparr>row_id = n, row_content = de_content d,
               row_metadata = (case de_metadata d of None \<Rightarrow> [] | Some m \<Rightarrow> m),
               row_source = de_source d, row_embedding = de_embedding d\<rparr>"
  have acc: "db_accepts sv (de_content d) (de_embedding d)"
    using Cons.prems by (auto split: if_splits)
  then have "insert_rows sv ds (Suc n) (rows @ [?row]) (ids @ [n]) = (True, n', rows', ids')"
    using Cons.prems by simp
  from Cons.IH [OF this] obtain new where new:
    "rows' = (rows @ [?row]) @ new" "ids' = (ids @ [n]) @ [Suc n..<Suc n + length ds]"
    "map row_id new = [Suc n..<Suc n + length ds]"
    "map row_content new = map de_content ds"
    "map row_source new = map de_source ds"
    "map row_embedding new = map de_embedding ds"
    by blast
  have upt: "[n..<n + length (d # ds)] = n # [Suc n..<Suc n + length ds]"
    by (subst upt_rec) simp
  show ?case
    using new upt by (intro exI [of _ "?row # new"]) simp
qed

lemma insert_rows_accepts:
  "\<forall>d \<in> set ds. db_accepts sv (de_content d) (de_embedding d) \<Longrightarrow>
     fst (insert_rows sv ds n rows ids)"
  by (induction ds arbitrary: n rows ids) auto

lemma batchInsertDocuments_result:
  assumes "batchInsertDocuments sv ds s = (r, s1)"
  shows "(\<forall>e. r = Inl e \<longrightarrow> documents s1 = documents s) \<and>
         (\<forall>ids. r = Inr ids \<longrightarrow> ids = [next_id s..<next_id s + length ds] \<and>
            (\<exists>new. documents s1 = documents s @ new \<and> map row_id new = ids \<and>
                   map row_content new = map de_content ds \<and>
                   map row_source new = map de_source ds \<and>
                   map row_embedding new = map de_embedding ds))"
proof (cases "db_connects sv")
  case False
  then show ?thesis
    using assms by (auto simp: batchInsertDocuments_def)
next
  case True
  obtain ok n rows ids where ins: "insert_rows sv ds (next_id s) (documents s) [] = (ok, n, rows, ids)"
    by (cases "insert_rows sv ds (next_id s) (documents s) []")
  show ?thesis
  proof (cases ok)
    case False
    then show ?thesis
      using assms True ins by (auto simp: batchInsertDocuments_def log_io_def)
  next
    case ok: True
    have r: "r = Inr ids" and s1: "documents s1 = rows"
      using assms True ins ok by (auto simp: batchInsertDocuments_def log_io_def)
    have "insert_rows sv ds (next_id s) (documents s) [] = (True, n, rows, ids)"
      using ins ok by simp
    from insert_rows_ok [OF this] show ?thesis
      using r s1 by auto
  qed
qed

lemma batchInsertDocuments_accepts:
  assumes "db_connects sv" and "\<forall>d \<in> set ds. db_accepts sv (de_content d) (de_embedding d)"
  shows "\<not> isl (fst (batchInsertDocuments sv ds s))"
  using assms insert_rows_accepts [OF assms(2), of "next_id s" "documents s" "[]"]
  by (auto simp: batchInsertDocuments_def split: prod.splits)

lemma with_embeddings_maps:
  assumes "length docs \<le> length es"
  shows "length (documentsWithEmbeddings docs es) = length docs"
    and "map de_content (documentsWithEmbeddings docs es) = map d_content docs"
    and "map de_source (documentsWithEmbeddings docs es) = map d_source docs"
proof -
  have z: "map fst (zip docs es) = docs"
    using assms by (simp add: map_fst_zip_take)
  show "length (documentsWithEmbeddings docs es) = length docs"
    using assms by (simp add: documentsWithEmbeddings_def)
  have "map de_content (documentsWithEmbeddings docs es) = map d_content (map fst (zip docs es))"
    by (simp add: documentsWithEmbeddings_def comp_def case_prod_unfold)
  then show "map de_content (documentsWithEmbeddings docs es) = map d_content docs"
    using z by simp
  have "map de_source (documentsWithEmbeddings docs es) = map d_source (map fst (zip docs es))"
    by (simp add: documentsWithEmbeddings_def comp_def case_prod_unfold)
  then show "map de_source (documentsWithEmbeddings docs es) = map d_source docs"
    using z by simp
qed

lemma addDocuments_result:
  assumes "0 < maxBatchSize sv"
  shows "\<exists>r s1. addDocuments sv docs s = Some (r, s1) \<and>
     (\<forall>e. r = Inl e \<longrightarrow> documents s1 = documents s) \<and>
     (\<forall>ids. r = Inr ids \<longrightarrow>
        docs \<noteq> [] \<and> ids = [next_id s..<next_id s + length docs] \<and>
        (\<exists>new. documents s1 = documents s @ new \<and> map row_id new = ids \<and>
               map row_content new = map d_content docs \<and>
               map row_source new = map d_source docs))"
proof -
  obtain r0 s0 where init: "initialize sv s = (r0, s0)"
    by (cases "initialize sv s")
  have f0: "documents s0 = documents s" "next_id s0 = next_id s"
    using initialize_cases [OF init] by simp_all
  show ?thesis
  proof (cases r0)
    case (Some e)
    then show ?thesis
      using init f0 by (simp add: addDocuments_def)
  next
    case None
    obtain re s2 where gen: "generateEmbeddings sv (map d_content docs) s0 = Some (re, s2)"
      and f2: "documents s2 = documents s0" "next_id s2 = next_id s0"
      and ne: "\<forall>es. re = Inr es \<longrightarrow> map d_content docs \<noteq> []"
      using generateEmbeddings_total [OF assms, of "map d_content docs" s0] by blast
    show ?thesis
    proof (cases re)
      case (Inl e)
      then show ?thesis
        using init None gen f0 f2 by (simp add: addDocuments_def)
    next
      case (Inr es)
      show ?thesis
      proof (cases "length es < length docs")
        case True
        then show ?thesis
          using init None gen Inr f0 f2 by (simp add: addDocuments_def)
      next
        case False
        then have le: "length docs \<le> length es" by simp
        obtain r s1 where b: "batchInsertDocuments sv (documentsWithEmbeddings docs es) s2 = (r, s1)"
          by (cases "batchInsertDocuments sv (documentsWithEmbeddings docs es) s2")
        have add: "addDocuments sv docs s = Some (r, s1)"
          using init None gen Inr False b by (simp add: addDocuments_def)
        show ?thesis
          using add batchInsertDocuments_result [OF b] with_embeddings_maps [OF le] f0 f2 ne Inr
          by auto
      qed
    qed
  qed
qed

lemma documentsWithEmbeddings_accepted:
  assumes "map (\<lambda>e. Some (e_embedding e)) es = map (pipeline sv) (map d_content docs)"
    and "\<forall>d \<in> set docs. \<exists>v. pipeline sv (d_content d) = Some v \<and> db_accepts sv (d_content d) v"
  shows "\<forall>d \<in> set (documentsWithEmbeddings docs es). db_accepts sv (de_content d) (de_embedding d)"
proof
  fix d
  assume "d \<in> set (documentsWithEmbeddings docs es)"
  then obtain doc e where de: "(doc, e) \<in> set (zip docs es)"
    and d: "d = \<lparr>de_content = d_content doc, de_embedding = e_embedding e,
                 de_metadata = d_metadata doc, de_source = d_source doc\<rparr>"
    by (auto simp: documentsWithEmbeddings_def)
  obtain i where i: "i < length docs" "i < length es" "docs ! i = doc" "es ! i = e"
    using de by (auto simp: in_set_zip)
  have "map (\<lambda>e. Some (e_embedding e)) es ! i = map (pipeline sv) (map d_content docs) ! i"
    using assms(1) by simp
  then have "Some (e_embedding e) = pipeline sv (d_content doc)"
    using i by simp
  moreover have "doc \<in> set docs"
    using i by auto
  ultimately show "db_accepts sv (de_content d) (de_embedding d)"
    using assms(2) d by force
qed

lemma addDocuments_init_fail:
  "initialize sv s = (Some e, s0) \<Longrightarrow> addDocuments sv docs s = Some (Inl e, s0)"
  by (simp add: addDocuments_def)

lemma addDocuments_embedding_fail:
  "initialize sv s = (None, s0) \<Longrightarrow>
   generateEmbeddings sv (map d_content docs) s0 = Some (Inl e, s2) \<Longrightarrow>
   addDocuments sv docs s = Some (Inl e, s2)"
  by (simp add: addDocuments_def)

lemma addDocuments_insert:
  "initialize sv s = (None, s0) \<Longrightarrow>
   generateEmbeddings sv (map d_content docs) s0 = Some (Inr es, s2) \<Longrightarrow>
   length docs \<le> length es \<Longrightarrow>
   addDocuments sv docs s = Some (batchInsertDocuments sv (documentsWithEmbeddings docs es) s2)"
  by (simp add: addDocuments_def)

lemma embed_batches_done:
  "\<not> i < length texts \<Longrightarrow> embed_batches sv texts i acc s = Some (Inr acc, s)"
  by (subst embed_batches.simps) simp

lemma embed_batches_step:
  "i < length texts \<Longrightarrow> embed_batches sv texts i acc s =
     (case embed_all sv (take (maxBatchSize sv) (drop i texts)) s of
        (Inl e, s1) \<Rightarrow> Some (Inl e, s1)
      | (Inr batchResults, s1) \<Rightarrow>
          embed_batches sv texts (i + maxBatchSize sv) (acc @ batchResults) s1)"
  by (subst embed_batches.simps) simp

lemma example_addDocuments:
  "addDocuments example_services [doc_a, doc_b] ready_system =
     Some (Inr [1, 2],
       ready_system\<lparr>documents :=
           [\<lparr>row_id = 1, row_content = ''alpha'', row_metadata = [],
             row_source = Some ''https://example.test/'', row_embedding = [1, 0]\<rparr>,
            \<lparr>row_id = 2, row_content = ''beta'', row_metadata = [],
             row_source = None, row_embedding = [1, 0]\<rparr>],
          next_id := 3,
          io_log := [PipelineRun ''alpha'', PipelineRun ''beta'', DbTransaction]\<rparr>)"
  by (simp add: addDocuments_def initialize_def generateEmbeddings_def embed_batches_step
      embed_batches_done generateEmbedding_def blank_def is_space_def batchInsertDocuments_def
      documentsWithEmbeddings_def log_io_def example_services_def ready_system_def doc_a_def
      doc_b_def numeral_3_eq_3 numeral_2_eq_2)

lemma example_addDocuments_blank:
  "addDocuments example_services [doc_a, doc_blank] ready_system =
     Some (Inl TextEmpty, ready_system\<lparr>io_log := [PipelineRun ''alpha'']\<rparr>)"
  by (simp add: addDocuments_def initialize_def generateEmbeddings_def embed_batches_step
      embed_batches_done generateEmbedding_def blank_def is_space_def batchInsertDocuments_def
      documentsWithEmbeddings_def log_io_def example_services_def ready_system_def doc_a_def
      doc_blank_def)

text \<open>
  Claim C5, as stated, fails for the empty list: \<^verbatim>\<open>addDocuments([])\<close> does not return
  the empty list of ids, it throws.
\<close>

theorem addDocuments_empty_counterexample:
  "addDocuments example_services [] ready_system = Some (Inl TextsEmpty, ready_system)"
  by (simp add: addDocuments_def initialize_def generateEmbeddings_def ready_system_def)

text \<open>
  Claim C5, amended to lists that are not empty. With a positive batch size,
  \<^verbatim>\<open>addDocuments\<close> ends, with an error or with ids. After an error the committed rows
  are the ones before the call. Ids are returned only for a list that is not empty: as
  many as there are documents, consecutive values of the sequence, and the rows appended
  to the table carry them in the order of the input (the row with the id at index \<open>i\<close>
  has the content and the source of the document at index \<open>i\<close>). When the embedding step
  fails, the call fails with the error of that step and nothing is inserted; with the
  local provider this is the case as soon as one content is blank or rejected by the
  model. With the local provider, an initialised system and a reachable database, ids are
  returned when every content has an embedding that the database accepts.
\<close>

theorem addDocuments_batch:
  assumes "0 < maxBatchSize sv"
  shows "\<exists>r s1. addDocuments sv docs s = Some (r, s1) \<and>
     (\<forall>e. r = Inl e \<longrightarrow> documents s1 = documents s) \<and>
     (\<forall>ids. r = Inr ids \<longrightarrow>
        docs \<noteq> [] \<and> length ids = length docs \<and> ids = [next_id s..<next_id s + length docs] \<and>
        (\<exists>new. documents s1 = documents s @ new \<and> map row_id new = ids \<and>
               map row_content new = map d_content docs \<and>
               map row_source new = map d_source docs)) \<and>
     (\<forall>e s2. fst (initialize sv s) = None \<and>
        generateEmbeddings sv (map d_content docs) (snd (initialize sv s)) = Some (Inl e, s2) \<longrightarrow>
        r = Inl e \<and> s1 = s2) \<and>
     (provider sv = Local \<and> (\<exists>d \<in> set docs. blank (d_content d) \<or> pipeline sv (d_content d) = None) \<longrightarrow>
        isl r) \<and>
     (provider sv = Local \<and> isInitialized s \<and> emb_isInitialized s \<and> docs \<noteq> [] \<and> db_connects sv \<and>
      (\<forall>d \<in> set docs. \<not> blank (d_content d) \<and>
         (\<exists>v. pipeline sv (d_content d) = Some v \<and> db_accepts sv (d_content d) v)) \<longrightarrow>
        \<not> isl r)"
proof -
  obtain r s1 where add: "addDocuments sv docs s = Some (r, s1)"
    and abort: "\<forall>e. r = Inl e \<longrightarrow> documents s1 = documents s"
    and ids: "\<forall>ids. r = Inr ids \<longrightarrow>
        docs \<noteq> [] \<and> ids = [next_id s..<next_id s + length docs] \<and>
        (\<exists>new. documents s1 = documents s @ new \<and> map row_id new = ids \<and>
               map row_content new = map d_content docs \<and>
               map row_source new = map d_source docs)"
    using addDocuments_result [OF assms, of docs s] by (elim exE conjE) (rule that)
  obtain r0 s0 where init: "initialize sv s = (r0, s0)"
    by (cases "initialize sv s")
  have len: "\<forall>ids. r = Inr ids \<longrightarrow> length ids = length docs"
  proof (intro allI impI)
    fix ids
    assume "r = Inr ids"
    then have "ids = [next_id s..<next_id s + length docs]"
      using ids by blast
    then show "length ids = length docs"
      by simp
  qed
  have embfail: "\<forall>e s2. fst (initialize sv s) = None \<and>
        generateEmbeddings sv (map d_content docs) (snd (initialize sv s)) = Some (Inl e, s2) \<longrightarrow>
        r = Inl e \<and> s1 = s2"
  proof (intro allI impI)
    fix e s2
    assume "fst (initialize sv s) = None \<and>
        generateEmbeddings sv (map d_content docs) (snd (initialize sv s)) = Some (Inl e, s2)"
    then have "initialize sv s = (None, s0)"
      and "generateEmbeddings sv (map d_content docs) s0 = Some (Inl e, s2)"
      using init by simp_all
    from addDocuments_embedding_fail [OF this] show "r = Inl e \<and> s1 = s2"
      using add by simp
  qed
  have fail: "isl r"
    if h1: "provider sv = Local"
      and h2: "\<exists>d \<in> set docs. blank (d_content d) \<or> pipeline sv (d_content d) = None"
  proof (cases r0)
    case (Some e)
    then have "addDocuments sv docs s = Some (Inl e, s0)"
      using init by (simp add: addDocuments_init_fail)
    then show ?thesis using add by simp
  next
    case None
    have "\<exists>t \<in> set (map d_content docs). blank t \<or> pipeline sv t = None"
      using h2 by auto
    from generateEmbeddings_local_fail [OF assms h1 this, of s0]
    obtain e s2 where "generateEmbeddings sv (map d_content docs) s0 = Some (Inl e, s2)"
      by blast
    then have "addDocuments sv docs s = Some (Inl e, s2)"
      using init None by (simp add: addDocuments_embedding_fail)
    then show ?thesis using add by simp
  qed
  have ok: "\<not> isl r"
    if h1: "provider sv = Local" and h2: "isInitialized s" and h3: "emb_isInitialized s"
      and h4: "docs \<noteq> []" and h5: "db_connects sv"
      and h6: "\<forall>d \<in> set docs. \<not> blank (d_content d) \<and>
         (\<exists>v. pipeline sv (d_content d) = Some v \<and> db_accepts sv (d_content d) v)"
  proof -
    have i: "initialize sv s = (None, s)"
      using h2 by (rule initialize_done)
    have good: "\<forall>t \<in> set (map d_content docs). \<not> blank t \<and> pipeline sv t \<noteq> None"
      using h6 by auto
    have ne: "map d_content docs \<noteq> []"
      using h4 by simp
    obtain es s2 where gen: "generateEmbeddings sv (map d_content docs) s = Some (Inr es, s2)"
      and es: "map (\<lambda>e. Some (e_embedding e)) es = map (pipeline sv) (map d_content docs)"
      using generateEmbeddings_local_ok [OF assms h1 h3 ne good] by blast
    have "length (map (\<lambda>e. Some (e_embedding e)) es) = length (map (pipeline sv) (map d_content docs))"
      using es by simp
    then have "length docs \<le> length es"
      by simp
    then have add': "addDocuments sv docs s =
        Some (batchInsertDocuments sv (documentsWithEmbeddings docs es) s2)"
      using i gen by (simp add: addDocuments_insert)
    have "\<forall>d \<in> set (documentsWithEmbeddings docs es). db_accepts sv (de_content d) (de_embedding d)"
      using documentsWithEmbeddings_accepted [OF es] h6 by blast
    from batchInsertDocuments_accepts [OF h5 this, of s2]
    show ?thesis using add add' by simp
  qed
  show ?thesis
  proof (intro exI conjI)
    show "addDocuments sv docs s = Some (r, s1)"
      by (rule add)
    show "\<forall>e. r = Inl e \<longrightarrow> documents s1 = documents s"
      by (rule abort)
    show "\<forall>ids. r = Inr ids \<longrightarrow>
        docs \<noteq> [] \<and> length ids = length docs \<and> ids = [next_id s..<next_id s + length docs] \<and>
        (\<exists>new. documents s1 = documents s @ new \<and> map row_id new = ids \<and>
               map row_content new = map d_content docs \<and>
               map row_source new = map d_source docs)"
      using ids len by simp
    show "\<forall>e s2. fst (initialize sv s) = None \<and>
        generateEmbeddings sv (map d_content docs) (snd (initialize sv s)) = Some (Inl e, s2) \<longrightarrow>
        r = Inl e \<and> s1 = s2"
      by (rule embfail)
    show "provider sv = Local \<and> (\<exists>d \<in> set docs. blank (d_content d) \<or> pipeline sv (d_content d) = None) \<longrightarrow>
        isl r"
      using fail by simp
    show "provider sv = Local \<and> isInitialized s \<and> emb_isInitialized s \<and> docs \<noteq> [] \<and> db_connects sv \<and>
      (\<forall>d \<in> set docs. \<not> blank (d_content d) \<and>
         (\<exists>v. pipeline sv (d_content d) = Some v \<and> db_accepts sv (d_content d) v)) \<longrightarrow>
        \<not> isl r"
      using ok by simp
  qed
qed

theorem addDocuments_batch_witness:
  "0 < maxBatchSize example_services \<and>
   fst (the (addDocuments example_services [doc_a, doc_b] ready_system)) = Inr [1, 2] \<and>
   map row_content (documents (snd (the (addDocuments example_services [doc_a, doc_b] ready_system)))) =
     [''alpha'', ''beta''] \<and>
   map row_id (documents (snd (the (addDocuments example_services [doc_a, doc_b] ready_system)))) =
     [1, 2] \<and>
   blank (d_content doc_blank) \<and>
   fst (the (addDocuments example_services [doc_a, doc_blank] ready_system)) = Inl TextEmpty \<and>
   documents (snd (the (addDocuments example_services [doc_a, doc_blank] ready_system))) =
     documents ready_system"
proof -
  have m: "0 < maxBatchSize example_services"
    by (simp add: example_services_def)
  have b: "blank (d_content doc_blank)"
    by (simp add: doc_blank_def blank_def is_space_def)
  show ?thesis
    using m b addDocuments_batch [OF m, of "[doc_a, doc_b]" ready_system]
      addDocuments_batch [OF m, of "[doc_a, doc_blank]" ready_system]
    unfolding example_addDocuments example_addDocuments_blank
    by (simp add: ready_system_def)
qed


end
